theory Spec2Isabelle
  imports Main "HOL-Library.Word" "HOL-Library.Char_ord" "HOL-Library.List_Lexorder"
begin

section \<open>Requests, responses and routes\<close>

text \<open>
  The batched indexer of \<^verbatim>\<open>src/batched_indexer.cpp\<close> works on request and response
  objects, a route table, a key-value store and a message dispatcher that are declared in
  other files. The fields below are the ones the indexer reads or writes.
  \<^item> \<open>start_ts\<close> is the request id, \<open>params\<close> the \<^verbatim>\<open>std::map\<close> of URL parameters;
  \<^item> \<open>proceed_req\<close> stands for \<^verbatim>\<open>req->_req != nullptr && req->_req->proceed_req\<close>.
\<close>

record http_req =
  start_ts :: "64 word"
  route_hash :: "64 word"
  params :: "string \<rightharpoonup> string"
  body :: string
  last_chunk_aggregate :: bool
  log_index :: int
  proceed_req :: bool

record http_res =
  is_alive :: bool
  status_code :: nat

text \<open>
  A route carries its handler (a function pointer, compared by identity in
  \<^verbatim>\<open>get_collection_name\<close>, hence a number here) and the \<^verbatim>\<open>async_res\<close> flag.
\<close>

record route_path =
  handler :: nat
  async_res :: bool

text \<open>
  Modelled from the spec: \<^verbatim>\<open>http_req::to_json\<close> and \<^verbatim>\<open>http_req::load_from_json\<close> are
  declared outside this file. The serialized request is "the serialized request metadata +
  body fragment for one chunk, in a format the handler can re-parse via a symmetric load
  operation"; the worker sets the body to the carry-over text and then loads the chunk, so
  loading appends the chunk's body fragment to the body already there. The JSON text is
  represented by the document it denotes.
\<close>

record req_json =
  j_route_hash :: "64 word"
  j_params :: "string \<rightharpoonup> string"
  j_body :: string
  j_last_chunk_aggregate :: bool
  j_start_ts :: "64 word"
  j_log_index :: int

definition to_json :: "http_req \<Rightarrow> req_json" where
  "to_json rq =
     \<lparr>j_route_hash = route_hash rq, j_params = params rq, j_body = body rq,
      j_last_chunk_aggregate = last_chunk_aggregate rq, j_start_ts = start_ts rq,
      j_log_index = log_index rq\<rparr>"

definition load_from_json :: "req_json \<Rightarrow> http_req \<Rightarrow> http_req" where
  "load_from_json j rq =
     rq\<lparr>start_ts := j_start_ts j, route_hash := j_route_hash j,
        params := j_params j ++ params rq, body := body rq @ j_body j,
        last_chunk_aggregate := j_last_chunk_aggregate j, log_index := j_log_index j\<rparr>"

text \<open>
  Modelled from the spec: the constructors of \<^verbatim>\<open>http_req\<close> and \<^verbatim>\<open>http_res\<close> are
  declared outside this file. \<^verbatim>\<open>std::make_shared<http_req>()\<close> gives a request with empty
  strings and an empty parameter map; \<^verbatim>\<open>http_res(nullptr)\<close> gives a response with no client
  behind it.
\<close>

definition http_req_new :: http_req where
  "http_req_new =
     \<lparr>start_ts = 0, route_hash = 0, params = Map.empty, body = [],
      last_chunk_aggregate = False, log_index = 0, proceed_req = False\<rparr>"

definition http_res_new :: http_res where
  "http_res_new = \<lparr>is_alive = False, status_code = 0\<rparr>"

text \<open>
  Modelled from the spec: \<^verbatim>\<open>http_res::set_404\<close> is declared outside this file; it sets
  "the response to a 404-equivalent".
\<close>

definition set_404 :: "http_res \<Rightarrow> http_res" where
  "set_404 rs = rs\<lparr>status_code := 404\<rparr>"

section \<open>The environment of the indexer\<close>

text \<open>
  Everything the indexer takes from its collaborators is a field of the environment:
  the key prefix \<^verbatim>\<open>RAFT_REQ_LOG_PREFIX\<close>, the worker count, the route table of the server
  (\<^verbatim>\<open>get_route\<close> returns \<open>None\<close> where the C++ returns \<^verbatim>\<open>false\<close> and leaves the pointer
  unset), the handlers behind the function pointers, the identity of the create-collection
  handler, \<^verbatim>\<open>StringUtils::hash_wy\<close>, the two GC constants, and \<open>json_name\<close>: the result
  of parsing a body with \<^verbatim>\<open>nlohmann::json::parse\<close> and reading its top-level \<^verbatim>\<open>name\<close>,
  which is \<open>Some n\<close> exactly when the body parses to an object whose member \<^verbatim>\<open>name\<close> is
  the string \<open>n\<close>.
\<close>

record env =
  RAFT_REQ_LOG_PREFIX :: string
  num_threads :: nat
  get_route :: "64 word \<Rightarrow> route_path option"
  run_handler :: "nat \<Rightarrow> http_req \<Rightarrow> http_res \<Rightarrow> http_req \<times> http_res"
  post_create_collection :: nat
  hash_wy :: "string \<Rightarrow> 64 word"
  json_name :: "string \<Rightarrow> string option"
  GC_INTERVAL_SECONDS :: "64 word"
  GC_PRUNE_MAX_SECONDS :: "64 word"

text \<open>
  Undefined behaviour and exceptions of the C++ are values of this type: reading through
  the route pointer that \<^verbatim>\<open>get_route\<close> left unset, reading through the null request of a
  default-constructed registry record, a remainder by zero workers, and the two exceptions
  of \<^verbatim>\<open>std::stoull\<close>.
\<close>

datatype error =
  UnsetRoutePtr | NullRecord | ZeroThreads | BadQueue | InvalidArgument | OutOfRange

section \<open>Chunk keys\<close>

text \<open>
  Modelled from the spec: \<^verbatim>\<open>StringUtils::serialize_uint32_t\<close> and
  \<^verbatim>\<open>StringUtils::serialize_uint64_t\<close> are declared outside this file; the chunk key is
  \<^verbatim>\<open><REQ_LOG_PREFIX> || big-endian-uint64(req_id) || "_" || big-endian-uint32(chunk_sequence)\<close>.
  \<open>be_bytes n v\<close> is the big-endian encoding of \<open>v\<close> in \<open>n\<close> bytes.
\<close>

fun be_bytes :: "nat \<Rightarrow> nat \<Rightarrow> string" where
  "be_bytes 0 v = []"
| "be_bytes (Suc n) v = be_bytes n (v div 256) @ [char_of v]"

definition serialize_uint32_t :: "32 word \<Rightarrow> string" where
  "serialize_uint32_t num = be_bytes 4 (unat num)"

definition serialize_uint64_t :: "64 word \<Rightarrow> string" where
  "serialize_uint64_t num = be_bytes 8 (unat num)"

definition get_req_prefix_key :: "env \<Rightarrow> 64 word \<Rightarrow> string" where
  "get_req_prefix_key e req_id = RAFT_REQ_LOG_PREFIX e @ serialize_uint64_t req_id @ ''_''"

definition chunk_key :: "env \<Rightarrow> 64 word \<Rightarrow> 32 word \<Rightarrow> string" where
  "chunk_key e req_id chunk_sequence =
     get_req_prefix_key e req_id @ serialize_uint32_t chunk_sequence"

definition UINT32_MAX :: "32 word" where
  "UINT32_MAX = - 1"

text \<open>\<^verbatim>\<open>rocksdb::Slice::starts_with\<close>.\<close>

definition starts_with :: "string \<Rightarrow> string \<Rightarrow> bool" where
  "starts_with k p = (take (length p) k = p)"

section \<open>Collection name of a request\<close>

text \<open>
  \<^verbatim>\<open>get_collection_name\<close> binds a reference to \<^verbatim>\<open>req->params["collection"]\<close>: the
  subscript creates the parameter (empty) when it is absent, and the assignment of the
  parsed name goes through the reference into the request. The result of \<^verbatim>\<open>get_route\<close> is
  not looked at; when no route exists the pointer read on the next line was never set.
  The function returns the name together with the request as it has left it.
\<close>

definition get_collection_name :: "env \<Rightarrow> http_req \<Rightarrow> error + (string \<times> http_req)" where
  "get_collection_name e rq =
     (let coll_name = (case params rq ''collection'' of None \<Rightarrow> [] | Some c \<Rightarrow> c);
          rq1 = rq\<lparr>params := (params rq)(''collection'' \<mapsto> coll_name)\<rparr>
      in if coll_name = [] then
           (case get_route e (route_hash rq) of
              None \<Rightarrow> Inl UnsetRoutePtr
            | Some rpath \<Rightarrow>
                if handler rpath = post_create_collection e then
                  (case json_name e (body rq) of
                     Some n \<Rightarrow> Inr (n, rq1\<lparr>params := (params rq)(''collection'' \<mapsto> n)\<rparr>)
                   | None \<Rightarrow> Inr ([], rq1))
                else Inr ([], rq1))
         else Inr (coll_name, rq1))"

section \<open>The chunk store\<close>

text \<open>
  Modelled from the spec: the \<^verbatim>\<open>Store\<close> class is declared outside this file. It is a
  "lexicographically ordered KV with prefix scan; operations \<^verbatim>\<open>insert(key,value)\<close>,
  \<^verbatim>\<open>scan(key)\<close> -> iterator, \<^verbatim>\<open>delete_range(lo,hi)\<close>", where \<^verbatim>\<open>delete_range\<close> takes an
  inclusive upper bound and the scan yields the entries from the given key on in key
  order. The store is the list of its entries; the values are serialized requests.
\<close>

type_synonym kv_store = "(string \<times> req_json) list"

definition store_insert :: "string \<Rightarrow> req_json \<Rightarrow> kv_store \<Rightarrow> kv_store" where
  "store_insert k v st = (k, v) # filter (\<lambda>kv. fst kv \<noteq> k) st"

definition store_scan :: "string \<Rightarrow> kv_store \<Rightarrow> kv_store" where
  "store_scan k st = sort_key fst (filter (\<lambda>kv. k \<le> fst kv) st)"

definition store_delete_range :: "string \<Rightarrow> string \<Rightarrow> kv_store \<Rightarrow> kv_store" where
  "store_delete_range lo hi st = filter (\<lambda>kv. \<not> (lo \<le> fst kv \<and> fst kv \<le> hi)) st"

section \<open>The state of the indexer\<close>

text \<open>
  \<^verbatim>\<open>req_res_t\<close>, with the fields in the order of its constructor. The request and the
  response are shared objects in the C++; the record holds their current value.
\<close>

record req_res_t =
  prev_req_body :: string
  req :: http_req
  res :: http_res
  batch_begin_ts :: "64 word"
  num_chunks :: "32 word"
  next_chunk_index :: "32 word"
  is_complete :: bool

datatype message =
  REQUEST_PROCEED_MESSAGE http_req http_res
| STREAM_RESPONSE_MESSAGE http_req http_res

text \<open>
  The members of \<^verbatim>\<open>BatchedIndexer\<close>, the store it writes to, and what it hands to its
  collaborators: the messages sent to the server's dispatcher, the handler invocations
  (key of the chunk just loaded, handler, and request as passed), and the thread-local
  \<^verbatim>\<open>write_log_index\<close>.
  The registry \<^verbatim>\<open>req_res_map\<close> is the list of its entries in iteration order, with one
  entry per key.
\<close>

record indexer =
  req_res_map :: "(64 word \<times> req_res_t) list"
  queues :: "64 word list list"
  queued_writes :: "64 word"
  store :: kv_store
  last_gc_run :: int
  messages :: "message list"
  handler_calls :: "(string \<times> nat \<times> http_req) list"
  write_log_index :: int

definition reg_erase :: "64 word \<Rightarrow> (64 word \<times> req_res_t) list \<Rightarrow> (64 word \<times> req_res_t) list" where
  "reg_erase k reg = filter (\<lambda>kv. fst kv \<noteq> k) reg"

definition reg_emplace ::
  "64 word \<Rightarrow> req_res_t \<Rightarrow> (64 word \<times> req_res_t) list \<Rightarrow> (64 word \<times> req_res_t) list" where
  "reg_emplace k v reg = (case map_of reg k of None \<Rightarrow> reg @ [(k, v)] | Some _ \<Rightarrow> reg)"

definition reg_update ::
  "64 word \<Rightarrow> (req_res_t \<Rightarrow> req_res_t) \<Rightarrow> (64 word \<times> req_res_t) list \<Rightarrow> (64 word \<times> req_res_t) list" where
  "reg_update k f reg = map (\<lambda>kv. if fst kv = k then (k, f (snd kv)) else kv) reg"

definition delete_req_chunks :: "env \<Rightarrow> 64 word \<Rightarrow> kv_store \<Rightarrow> kv_store" where
  "delete_req_chunks e req_id st =
     (let req_key_prefix = get_req_prefix_key e req_id
      in store_delete_range req_key_prefix (req_key_prefix @ serialize_uint32_t UINT32_MAX) st)"

section \<open>The GC loop\<close>

text \<open>
  One pass of the loop on lines 219-233 over the entries \<open>it\<close> still to visit.
  \<open>wall_now k\<close> is the reading of \<^verbatim>\<open>system_clock\<close>, in seconds, taken when the entry with
  key \<open>k\<close> is visited; the subtraction is the unsigned 64-bit one of the C++.
\<close>

fun gc_scan ::
  "env \<Rightarrow> (64 word \<Rightarrow> 64 word) \<Rightarrow> (64 word \<times> req_res_t) list \<Rightarrow> indexer \<Rightarrow> indexer" where
  "gc_scan e wall_now [] s = s"
| "gc_scan e wall_now (kv # it) s =
     (let seconds_since_batch_start = wall_now (fst kv) - batch_begin_ts (snd kv)
      in if seconds_since_batch_start > GC_PRUNE_MAX_SECONDS e then
           gc_scan e wall_now it
             (s\<lparr>store := delete_req_chunks e (start_ts (req (snd kv))) (store s),
                req_res_map := reg_erase (fst kv) (req_res_map s)\<rparr>)
         else gc_scan e wall_now it s)"

text \<open>
  \<^verbatim>\<open>duration_cast<seconds>\<close> truncates towards zero; the readings of
  \<^verbatim>\<open>high_resolution_clock\<close> are in nanoseconds.
\<close>

definition duration_seconds :: "int \<Rightarrow> int" where
  "duration_seconds d = (if d < 0 then - ((- d) div 1000000000) else d div 1000000000)"

text \<open>
  The body of the main loop (lines 209-236) after its one-second sleep: \<open>hr_now\<close> and
  \<open>hr_after\<close> are the readings of \<^verbatim>\<open>high_resolution_clock\<close> on lines 211 and 235.
\<close>

definition gc_tick :: "env \<Rightarrow> int \<Rightarrow> (64 word \<Rightarrow> 64 word) \<Rightarrow> int \<Rightarrow> indexer \<Rightarrow> indexer" where
  "gc_tick e hr_now wall_now hr_after s =
     (let seconds_elapsed = (word_of_int (duration_seconds (hr_now - last_gc_run s)) :: 64 word)
      in if seconds_elapsed > GC_INTERVAL_SECONDS e then
           (gc_scan e wall_now (req_res_map s) s)\<lparr>last_gc_run := hr_after\<rparr>
         else s)"

definition gc_expired :: "env \<Rightarrow> (64 word \<Rightarrow> 64 word) \<Rightarrow> 64 word \<times> req_res_t \<Rightarrow> bool" where
  "gc_expired e wall_now kv = (GC_PRUNE_MAX_SECONDS e < wall_now (fst kv) - batch_begin_ts (snd kv))"

definition registry_wf :: "(64 word \<times> req_res_t) list \<Rightarrow> bool" where
  "registry_wf reg = (distinct (map fst reg) \<and> list_all (\<lambda>kv. start_ts (req (snd kv)) = fst kv) reg)"

definition in_req_range :: "env \<Rightarrow> 64 word \<Rightarrow> string \<Rightarrow> bool" where
  "in_req_range e r k =
     (get_req_prefix_key e r \<le> k \<and> k \<le> get_req_prefix_key e r @ serialize_uint32_t UINT32_MAX)"

section \<open>The worker\<close>

text \<open>
  The state of the scan loop (lines 151-186) of one request: the registry record, which
  the loop holds by reference, and the parts of the indexer the loop writes.
\<close>

record drain_st =
  d_rec :: req_res_t
  d_queued_writes :: "64 word"
  d_messages :: "message list"
  d_handler_calls :: "(string \<times> nat \<times> http_req) list"
  d_write_log_index :: int

text \<open>
  The loop over the iterator \<open>it\<close>, the entries of the scan that are still ahead.
  \<open>quit n\<close> is what the check on line 183 reads after \<open>n + 1\<close> chunks have been applied
  (the flag is set by another thread). The local \<^verbatim>\<open>async_res\<close> is assigned in every
  iteration with a route before line 169 reads it, and is not read without a route.
\<close>

fun drain ::
  "env \<Rightarrow> string \<Rightarrow> route_path option \<Rightarrow> bool \<Rightarrow> (nat \<Rightarrow> bool) \<Rightarrow> nat \<Rightarrow> kv_store \<Rightarrow> drain_st \<Rightarrow> drain_st" where
  "drain e req_key_prefix found_rpath is_live_req quit n [] d = d"
| "drain e req_key_prefix found_rpath is_live_req quit n (kv # it) d =
     (if \<not> starts_with (fst kv) req_key_prefix then d
      else
        let rq = load_from_json (snd kv) ((req (d_rec d))\<lparr>body := prev_req_body (d_rec d)\<rparr>);
            d1 = d\<lparr>d_write_log_index := log_index rq\<rparr>
        in case found_rpath of
             None \<Rightarrow>
               let rs = set_404 (res (d_rec d1));
                   d2 = d1\<lparr>d_rec := (d_rec d1)\<lparr>req := rq, res := rs\<rparr>\<rparr>
               in if is_live_req
                  then d2\<lparr>d_messages := d_messages d2 @ [STREAM_RESPONSE_MESSAGE rq rs]\<rparr>
                  else d2
           | Some rpath \<Rightarrow>
               let hr = run_handler e (handler rpath) rq (res (d_rec d1));
                   d2 = d1\<lparr>d_rec := (d_rec d1)\<lparr>req := fst hr, res := snd hr, prev_req_body := body (fst hr)\<rparr>,
                           d_handler_calls := d_handler_calls d1 @ [(fst kv, handler rpath, rq)]\<rparr>;
                   d3 = (if is_live_req \<and> \<not> async_res rpath
                         then d2\<lparr>d_messages := d_messages d2 @ [STREAM_RESPONSE_MESSAGE (fst hr) (snd hr)]\<rparr>
                         else d2);
                   d4 = d3\<lparr>d_queued_writes := d_queued_writes d3 - 1,
                           d_rec := (d_rec d3)\<lparr>next_chunk_index := next_chunk_index (d_rec d3) + 1\<rparr>\<rparr>
               in if quit n then d4 else drain e req_key_prefix found_rpath is_live_req quit (Suc n) it d4)"

text \<open>
  Lines 133-186: the scan of one request from its \<open>next_chunk_index\<close> on. The result is
  the indexer when the loop is left, before the iterator is deleted.
\<close>

definition worker_scan :: "env \<Rightarrow> (nat \<Rightarrow> bool) \<Rightarrow> 64 word \<Rightarrow> req_res_t \<Rightarrow> indexer \<Rightarrow> indexer" where
  "worker_scan e quit req_id orig_req_res s =
     (let req_key_prefix = get_req_prefix_key e req_id;
          req_key_start_prefix = req_key_prefix @ serialize_uint32_t (next_chunk_index orig_req_res);
          iter = store_scan req_key_start_prefix (store s);
          is_live_req = is_alive (res orig_req_res);
          found_rpath = get_route e (route_hash (req orig_req_res));
          d = drain e req_key_prefix found_rpath is_live_req quit 0 iter
                \<lparr>d_rec = orig_req_res, d_queued_writes = queued_writes s, d_messages = messages s,
                 d_handler_calls = handler_calls s, d_write_log_index = write_log_index s\<rparr>
      in s\<lparr>req_res_map := reg_update req_id (\<lambda>_. d_rec d) (req_res_map s),
            queued_writes := d_queued_writes d, messages := d_messages d,
            handler_calls := d_handler_calls d, write_log_index := d_write_log_index d\<rparr>)"

text \<open>Lines 188-196: the buffered chunks are deleted and the record is erased.\<close>

definition worker_finish :: "env \<Rightarrow> 64 word \<Rightarrow> indexer \<Rightarrow> indexer" where
  "worker_finish e req_id s =
     s\<lparr>store := delete_req_chunks e req_id (store s),
       req_res_map := reg_erase req_id (req_res_map s)\<rparr>"

text \<open>
  One round of the loop of worker \<open>i\<close> (lines 118-200). \<^verbatim>\<open>req_res_map[req_id]\<close> creates a
  record with null request and response when the id is not in the registry, and line 145
  reads through the null response.
\<close>

definition worker_process :: "env \<Rightarrow> (nat \<Rightarrow> bool) \<Rightarrow> nat \<Rightarrow> indexer \<Rightarrow> error + indexer" where
  "worker_process e quit i s =
     (if length (queues s) \<le> i then Inl BadQueue
      else case queues s ! i of
             [] \<Rightarrow> Inr s
           | req_id # rest \<Rightarrow>
               let s1 = s\<lparr>queues := (queues s)[i := rest]\<rparr>
               in case map_of (req_res_map s1) req_id of
                    None \<Rightarrow> Inl NullRecord
                  | Some orig_req_res \<Rightarrow>
                      Inr (worker_finish e req_id (worker_scan e quit req_id orig_req_res s1)))"

section \<open>The enqueue path\<close>

text \<open>
  Lines 18-60 of \<^verbatim>\<open>enqueue\<close>. \<open>wall_now\<close> is the reading of \<^verbatim>\<open>system_clock\<close> in seconds.
  The request is passed by shared pointer and written to (line 43, and the parameter map in
  \<^verbatim>\<open>get_collection_name\<close>), so the function returns it together with the indexer. A record
  created by this call holds the same request object and sees these writes; a record found
  in the registry holds the request object of the first chunk, and the chunk at hand is
  taken to arrive in an object of its own, as it does when the log is replayed.
\<close>

definition enqueue_core ::
  "env \<Rightarrow> 64 word \<Rightarrow> http_req \<Rightarrow> http_res \<Rightarrow> indexer \<Rightarrow> error + (http_req \<times> indexer)" where
  "enqueue_core e wall_now rq rs s =
     (let found = map_of (req_res_map s) (start_ts rq);
          chunk_sequence = (case found of None \<Rightarrow> 0 | Some rr \<Rightarrow> num_chunks rr);
          reg1 = (case found of
                    None \<Rightarrow>
                      reg_emplace (start_ts rq)
                        \<lparr>prev_req_body = [], req = rq, res = rs, batch_begin_ts = wall_now,
                         num_chunks = 1, next_chunk_index = 0, is_complete = False\<rparr>
                        (req_res_map s)
                  | Some _ \<Rightarrow>
                      reg_update (start_ts rq) (\<lambda>rr. rr\<lparr>num_chunks := num_chunks rr + 1\<rparr>)
                        (req_res_map s));
          request_chunk_key = get_req_prefix_key e (start_ts rq) @ serialize_uint32_t chunk_sequence;
          st1 = store_insert request_chunk_key (to_json rq) (store s);
          rq1 = rq\<lparr>body := []\<rparr>;
          shared = (\<lambda>rq'. case found of
                      None \<Rightarrow> reg_update (start_ts rq) (\<lambda>rr. rr\<lparr>req := rq'\<rparr>)
                    | Some _ \<Rightarrow> (\<lambda>reg. reg))
      in if last_chunk_aggregate rq then
           (case get_collection_name e rq1 of
              Inl err \<Rightarrow> Inl err
            | Inr cr \<Rightarrow>
                if num_threads e = 0 then Inl ZeroThreads
                else
                  let queue_id = unat (hash_wy e (fst cr)) mod num_threads e
                  in if length (queues s) \<le> queue_id then Inl BadQueue
                     else Inr (snd cr,
                       s\<lparr>req_res_map :=
                            reg_update (start_ts rq) (\<lambda>rr. rr\<lparr>is_complete := True\<rparr>)
                              (shared (snd cr) reg1),
                         store := st1,
                         queued_writes := queued_writes s + ucast (chunk_sequence + 1),
                         queues := (queues s)[queue_id := queues s ! queue_id @ [start_ts rq]]\<rparr>))
         else Inr (rq1, s\<lparr>req_res_map := shared rq1 reg1, store := st1\<rparr>))"

text \<open>
  Lines 68-77. The registry is emptied by the workers while the enqueue thread waits:
  \<open>view n\<close> is the indexer as this thread finds it at its \<open>n\<close>-th look. The result is the
  number of looks that found the registry non-empty, each followed by a sleep of 10 ms;
  there is no result when the registry is never found empty.
\<close>

partial_function (option) wait_registry_empty :: "(nat \<Rightarrow> indexer) \<Rightarrow> nat \<Rightarrow> nat option" where
  "wait_registry_empty view n =
     (if req_res_map (view n) = [] then Some n else wait_registry_empty view (Suc n))"

definition send_proceed :: "bool \<Rightarrow> http_req \<Rightarrow> http_res \<Rightarrow> indexer \<Rightarrow> indexer" where
  "send_proceed read_more_input rq rs s =
     (if read_more_input then s\<lparr>messages := messages s @ [REQUEST_PROCEED_MESSAGE rq rs]\<rparr> else s)"

text \<open>
  \<^verbatim>\<open>enqueue\<close>: the request as it is left, the indexer, and the milliseconds slept. \<open>None\<close>
  means that the call does not return.
\<close>

definition enqueue ::
  "env \<Rightarrow> 64 word \<Rightarrow> (nat \<Rightarrow> indexer) \<Rightarrow> http_req \<Rightarrow> http_res \<Rightarrow> indexer
     \<Rightarrow> (error + (http_req \<times> indexer \<times> nat)) option" where
  "enqueue e wall_now view rq rs s =
     (let is_old_serialized_request = (start_ts rq = 0);
          read_more_input = proceed_req rq
      in case enqueue_core e wall_now rq rs s of
           Inl err \<Rightarrow> Some (Inl err)
         | Inr r1 \<Rightarrow>
             if last_chunk_aggregate rq \<and> is_old_serialized_request then
               (case wait_registry_empty view 0 of
                  None \<Rightarrow> None
                | Some n \<Rightarrow> Some (Inr (fst r1, send_proceed read_more_input (fst r1) rs (view n), 10 * n)))
             else Some (Inr (fst r1, send_proceed read_more_input (fst r1) rs (snd r1), 0)))"

section \<open>Snapshots\<close>

text \<open>
  \<^verbatim>\<open>std::to_string\<close> of an unsigned integer: its decimal digits.
\<close>

definition digit_char :: "nat \<Rightarrow> char" where
  "digit_char d = char_of (48 + d)"

fun digits10 :: "nat \<Rightarrow> string" where
  "digits10 n = (if n < 10 then [digit_char n] else digits10 (n div 10) @ [digit_char (n mod 10)])"

definition to_string :: "64 word \<Rightarrow> string" where
  "to_string w = digits10 (unat w)"

text \<open>
  \<^verbatim>\<open>std::stoull\<close> with base 10: leading white space is skipped, one sign is accepted, the
  longest run of digits is read; no digit is \<^verbatim>\<open>std::invalid_argument\<close>, a value beyond 64
  bits is \<^verbatim>\<open>std::out_of_range\<close>, and a minus sign negates the value modulo \<open>2^64\<close>.
\<close>

definition is_space :: "char \<Rightarrow> bool" where
  "is_space c = ((of_char c :: nat) = 32 \<or> (9 \<le> (of_char c :: nat) \<and> (of_char c :: nat) \<le> 13))"

definition is_digit :: "char \<Rightarrow> bool" where
  "is_digit c = (48 \<le> (of_char c :: nat) \<and> (of_char c :: nat) \<le> 57)"

definition digit_val :: "char \<Rightarrow> nat" where
  "digit_val c = of_char c - 48"

definition stoull :: "string \<Rightarrow> error + 64 word" where
  "stoull str =
     (let s1 = dropWhile is_space str;
          neg = (s1 \<noteq> [] \<and> hd s1 = CHR ''-'');
          s2 = (if s1 \<noteq> [] \<and> (hd s1 = CHR ''-'' \<or> hd s1 = CHR ''+'') then tl s1 else s1);
          ds = takeWhile is_digit s2;
          v = foldl (\<lambda>a c. 10 * a + digit_val c) 0 ds
      in if ds = [] then Inl InvalidArgument
         else if 2 ^ 64 \<le> v then Inl OutOfRange
         else Inr (if neg then - of_nat v else of_nat v))"

text \<open>
  The snapshot document: \<^verbatim>\<open>queued_writes\<close> and the object \<^verbatim>\<open>req_res_map\<close> from decimal request
  ids to the fields of the records. JSON numbers are integers; the members of a JSON object
  are kept in the order of their keys, one member per key.
\<close>

record req_res_json =
  js_batch_begin_ts :: int
  js_num_chunks :: int
  js_next_chunk_index :: int
  js_is_complete :: bool
  js_req :: req_json
  js_prev_req_body :: string

record state_json =
  js_queued_writes :: int
  js_req_res_map :: "(string \<times> req_res_json) list"

text \<open>
  \<^verbatim>\<open>state["req_res_map"].emplace(req_key, json())\<close> followed by the assignments through
  \<^verbatim>\<open>state["req_res_map"][req_key]\<close>: the member is created in key order when the key is new,
  and written in either case.
\<close>

definition json_set :: "string \<Rightarrow> req_res_json \<Rightarrow> (string \<times> req_res_json) list \<Rightarrow> (string \<times> req_res_json) list" where
  "json_set k v obj =
     (if k \<in> fst ` set obj then map (\<lambda>kv. if fst kv = k then (k, v) else kv) obj
      else insort_key fst (k, v) obj)"

definition req_res_to_json :: "req_res_t \<Rightarrow> req_res_json" where
  "req_res_to_json rr =
     \<lparr>js_batch_begin_ts = uint (batch_begin_ts rr), js_num_chunks = uint (num_chunks rr),
      js_next_chunk_index = uint (next_chunk_index rr), js_is_complete = is_complete rr,
      js_req = to_json (req rr), js_prev_req_body = prev_req_body rr\<rparr>"

definition serialize_state :: "indexer \<Rightarrow> state_json" where
  "serialize_state s =
     \<lparr>js_queued_writes = sint (queued_writes s),
      js_req_res_map =
        foldl (\<lambda>obj kv. json_set (to_string (fst kv)) (req_res_to_json (snd kv)) obj) []
          (req_res_map s)\<rparr>"

text \<open>Lines 296-304 of \<^verbatim>\<open>load_state\<close>: the record built from one member of the document.\<close>

definition restore_record :: "req_res_json \<Rightarrow> req_res_t" where
  "restore_record v =
     \<lparr>prev_req_body = js_prev_req_body v, req = load_from_json (js_req v) http_req_new,
      res = http_res_new, batch_begin_ts = word_of_int (js_batch_begin_ts v),
      num_chunks = word_of_int (js_num_chunks v),
      next_chunk_index = word_of_int (js_next_chunk_index v),
      is_complete = js_is_complete v\<rparr>"

text \<open>
  The loop on lines 295-324 over the members \<open>it\<close> still to visit, on the indexer and the
  vector \<^verbatim>\<open>queue_ids\<close>. The record put into the registry shares its request with \<^verbatim>\<open>req\<close>, so
  it holds the request as \<^verbatim>\<open>get_collection_name\<close> leaves it.
\<close>

fun load_entries ::
  "env \<Rightarrow> (string \<times> req_res_json) list \<Rightarrow> indexer \<times> nat list \<Rightarrow> error + (indexer \<times> nat list)" where
  "load_entries e [] sq = Inr sq"
| "load_entries e (kv # it) sq =
     (let req_res = restore_record (snd kv)
      in case stoull (fst kv) of
           Inl err \<Rightarrow> Inl err
         | Inr key \<Rightarrow>
             if is_complete req_res then
               (case get_collection_name e (req req_res) of
                  Inl err \<Rightarrow> Inl err
                | Inr cr \<Rightarrow>
                    if num_threads e = 0 then Inl ZeroThreads
                    else
                      let queue_id = unat (hash_wy e (fst cr)) mod num_threads e
                      in if length (queues (fst sq)) \<le> queue_id then Inl BadQueue
                         else load_entries e it
                           ((fst sq)\<lparr>req_res_map :=
                                       reg_emplace key (req_res\<lparr>req := snd cr\<rparr>) (req_res_map (fst sq)),
                                     queues := (queues (fst sq))
                                       [queue_id := queues (fst sq) ! queue_id @ [start_ts (snd cr)]]\<rparr>,
                            snd sq @ [queue_id]))
             else load_entries e it
                    ((fst sq)\<lparr>req_res_map := reg_emplace key req_res (req_res_map (fst sq))\<rparr>, snd sq))"

text \<open>Lines 327-330: each queue that received an id is sorted.\<close>

fun sort_queues :: "nat list \<Rightarrow> 64 word list list \<Rightarrow> 64 word list list" where
  "sort_queues [] qs = qs"
| "sort_queues (queue_id # ids) qs = sort_queues ids (qs[queue_id := sort (qs ! queue_id)])"

definition load_state :: "env \<Rightarrow> state_json \<Rightarrow> indexer \<Rightarrow> error + indexer" where
  "load_state e state s =
     (case load_entries e (js_req_res_map state)
             (s\<lparr>queued_writes := word_of_int (js_queued_writes state)\<rparr>, []) of
        Inl err \<Rightarrow> Inl err
      | Inr sq \<Rightarrow> Inr ((fst sq)\<lparr>queues := sort_queues (snd sq) (queues (fst sq))\<rparr>))"

text \<open>
  The collection name that \<^verbatim>\<open>get_collection_name\<close> resolves for a request, the shard it
  selects, and the record that \<^verbatim>\<open>load_state\<close> rebuilds from a record of the registry.
\<close>

definition coll_name_of :: "env \<Rightarrow> http_req \<Rightarrow> string" where
  "coll_name_of e rq = (case get_collection_name e rq of Inl _ \<Rightarrow> [] | Inr cr \<Rightarrow> fst cr)"

definition shard_of :: "env \<Rightarrow> http_req \<Rightarrow> nat" where
  "shard_of e rq = unat (hash_wy e (coll_name_of e rq)) mod num_threads e"

definition restored :: "env \<Rightarrow> req_res_t \<Rightarrow> req_res_t" where
  "restored e rr =
     \<lparr>prev_req_body = prev_req_body rr,
      req = (if is_complete rr
             then (req rr)\<lparr>params := (params (req rr))(''collection'' \<mapsto> coll_name_of e (req rr)),
                          proceed_req := False\<rparr>
             else (req rr)\<lparr>proceed_req := False\<rparr>),
      res = http_res_new, batch_begin_ts = batch_begin_ts rr, num_chunks = num_chunks rr,
      next_chunk_index = next_chunk_index rr, is_complete = is_complete rr\<rparr>"

definition name_lookup_safe :: "env \<Rightarrow> req_res_t \<Rightarrow> bool" where
  "name_lookup_safe e rr =
     (is_complete rr \<longrightarrow>
        (params (req rr) ''collection'' = None \<or> params (req rr) ''collection'' = Some []) \<longrightarrow>
        get_route e (route_hash (req rr)) \<noteq> None)"

text \<open>
  The member of the document written for an entry of the registry, and the ids that
  \<^verbatim>\<open>load_state\<close> pushes to queue \<open>j\<close> for a list of entries.
\<close>

definition ser_entry :: "64 word \<times> req_res_t \<Rightarrow> string \<times> req_res_json" where
  "ser_entry kv = (to_string (fst kv), req_res_to_json (snd kv))"

definition pushed :: "env \<Rightarrow> nat \<Rightarrow> (64 word \<times> req_res_t) list \<Rightarrow> 64 word list" where
  "pushed e j reg =
     map (\<lambda>kv. start_ts (req (snd kv)))
       (filter (\<lambda>kv. is_complete (snd kv) \<and> shard_of e (req (snd kv)) = j) reg)"

section \<open>Scenarios\<close>

text \<open>
  The chunks of request \<open>r\<close> in a store are dense below \<open>num\<close>: each key is held once, the
  keys under the prefix of \<open>r\<close> are chunk keys of sequence numbers below \<open>num\<close>, and every
  such sequence number has its key.
\<close>

definition chunks_dense :: "env \<Rightarrow> 64 word \<Rightarrow> 32 word \<Rightarrow> kv_store \<Rightarrow> bool" where
  "chunks_dense e r num st =
     (distinct (map fst st)
      \<and> (\<forall>kv \<in> set st. starts_with (fst kv) (get_req_prefix_key e r) \<longrightarrow>
            (\<exists>c. c < num \<and> fst kv = chunk_key e r c))
      \<and> (\<forall>c. c < num \<longrightarrow> chunk_key e r c \<in> fst ` set st))"

definition chunk_entries :: "env \<Rightarrow> 64 word \<Rightarrow> 32 word \<Rightarrow> 32 word \<Rightarrow> kv_store \<Rightarrow> kv_store" where
  "chunk_entries e r nxt num st =
     map (\<lambda>i. (chunk_key e r (of_nat i), the (map_of st (chunk_key e r (of_nat i)))))
       [unat nxt ..< unat num]"

definition drain_init :: "req_res_t \<Rightarrow> indexer \<Rightarrow> drain_st" where
  "drain_init rr s =
     \<lparr>d_rec = rr, d_queued_writes = queued_writes s, d_messages = messages s,
      d_handler_calls = handler_calls s, d_write_log_index = write_log_index s\<rparr>"

text \<open>One pass of the loop body for a request with a route, up to the check of \<open>quit\<close>.\<close>

definition apply_chunk :: "env \<Rightarrow> route_path \<Rightarrow> bool \<Rightarrow> string \<times> req_json \<Rightarrow> drain_st \<Rightarrow> drain_st" where
  "apply_chunk e rpath live kv d =
     drain e (fst kv) (Some rpath) live (\<lambda>n. True) 0 [kv] d"

text \<open>
  The upstream write thread calls \<^verbatim>\<open>enqueue\<close> once per chunk, in order; this is the effect
  of lines 18-60 for a list of chunks.
\<close>

fun enqueue_chunks :: "env \<Rightarrow> 64 word \<Rightarrow> (http_req \<times> http_res) list \<Rightarrow> indexer \<Rightarrow> error + indexer" where
  "enqueue_chunks e wall_now [] s = Inr s"
| "enqueue_chunks e wall_now (c # cs) s =
     (case enqueue_core e wall_now (fst c) (snd c) s of
        Inl err \<Rightarrow> Inl err
      | Inr r \<Rightarrow> enqueue_chunks e wall_now cs (snd r))"

text \<open>
  What the registry and the store hold of request \<open>r\<close> after \<open>num\<close> chunks with route hash
  \<open>h\<close> have been enqueued and none has been applied.
\<close>

definition enqueued :: "env \<Rightarrow> 64 word \<Rightarrow> 64 word \<Rightarrow> 32 word \<Rightarrow> indexer \<Rightarrow> bool" where
  "enqueued e r h num s =
     (chunks_dense e r num (store s)
      \<and> (case map_of (req_res_map s) r of
            None \<Rightarrow> num = 0
          | Some rr \<Rightarrow> num_chunks rr = num \<and> next_chunk_index rr = 0 \<and> route_hash (req rr) = h))"

section \<open>Concrete instances\<close>

text \<open>
  A small environment and a few states on which the theorems below are instantiated:
  two workers, a write handler behind route 7, the create-collection handler behind
  route 9, and no route for any other hash.
\<close>

definition env0 :: env where
  "env0 =
     \<lparr>RAFT_REQ_LOG_PREFIX = ''$RL_'', num_threads = 2,
      get_route = (\<lambda>h. if h = 7 then Some \<lparr>handler = 1, async_res = False\<rparr>
                        else if h = 9 then Some \<lparr>handler = 2, async_res = False\<rparr> else None),
      run_handler = (\<lambda>h rq rs. (rq\<lparr>body := []\<rparr>, rs\<lparr>status_code := 200\<rparr>)),
      post_create_collection = 2,
      hash_wy = (\<lambda>s. of_nat (length s)),
      json_name = (\<lambda>b. if b = ''{\"name\":\"c\"}'' then Some ''c'' else None),
      GC_INTERVAL_SECONDS = 60, GC_PRUNE_MAX_SECONDS = 3600\<rparr>"

definition req0 :: http_req where
  "req0 =
     \<lparr>start_ts = 100, route_hash = 9, params = Map.empty, body = ''{\"name\":\"c\"}'',
      last_chunk_aggregate = True, log_index = 1, proceed_req = True\<rparr>"

definition req_books :: http_req where
  "req_books =
     \<lparr>start_ts = 100, route_hash = 7, params = [''collection'' \<mapsto> ''books''],
      body = ''{\"title\":\"x\"}'', last_chunk_aggregate = True, log_index = 1,
      proceed_req = True\<rparr>"

definition res_live :: http_res where
  "res_live = \<lparr>is_alive = True, status_code = 0\<rparr>"

definition idx_empty :: indexer where
  "idx_empty =
     \<lparr>req_res_map = [], queues = [[], []], queued_writes = 0, store = [], last_gc_run = 0,
      messages = [], handler_calls = [], write_log_index = 0\<rparr>"

definition rec_unrouted :: req_res_t where
  "rec_unrouted =
     \<lparr>prev_req_body = [], req = req_books\<lparr>route_hash := 8, body := []\<rparr>, res = res_live,
      batch_begin_ts = 1000, num_chunks = 1, next_chunk_index = 0, is_complete = True\<rparr>"

definition idx_unrouted :: indexer where
  "idx_unrouted =
     idx_empty\<lparr>req_res_map := [(100, rec_unrouted)], queues := [[], [100]],
       store := [(chunk_key env0 100 0, to_json (req_books\<lparr>route_hash := 8\<rparr>))]\<rparr>"

definition rec_young :: req_res_t where
  "rec_young =
     \<lparr>prev_req_body = [], req = req_books\<lparr>start_ts := 200, body := []\<rparr>, res = res_live,
      batch_begin_ts = 9000, num_chunks = 1, next_chunk_index = 0, is_complete = False\<rparr>"

definition idx_gc :: indexer where
  "idx_gc =
     idx_empty\<lparr>req_res_map := [(100, rec_unrouted), (200, rec_young)], queues := [[], [100]],
       store := [(chunk_key env0 100 0, to_json (req_books\<lparr>route_hash := 8\<rparr>)),
                 (chunk_key env0 200 0, to_json (req_books\<lparr>start_ts := 200\<rparr>))]\<rparr>"

definition req_legacy :: http_req where
  "req_legacy = req_books\<lparr>start_ts := 0\<rparr>"

definition view_legacy :: "nat \<Rightarrow> indexer" where
  "view_legacy n = (if n < 2 then idx_unrouted else idx_empty)"

definition chunk_a :: http_req where
  "chunk_a = req_books\<lparr>body := ''{\"title\":'', last_chunk_aggregate := False\<rparr>"

definition two_chunks :: "(http_req \<times> http_res) list" where
  "two_chunks = [(chunk_a, res_live), (req_books, res_live)]"

definition two_chunks_unrouted :: "(http_req \<times> http_res) list" where
  "two_chunks_unrouted =
     [(chunk_a\<lparr>route_hash := 8\<rparr>, res_live), (req_books\<lparr>route_hash := 8\<rparr>, res_live)]"

definition quit_never :: "nat \<Rightarrow> bool" where
  "quit_never n = False"

definition quit_always :: "nat \<Rightarrow> bool" where
  "quit_always n = True"

definition idx_two_enqueued :: indexer where
  "idx_two_enqueued = projr (enqueue_chunks env0 5 two_chunks idx_empty)"

definition idx_after_quit :: indexer where
  "idx_after_quit = projr (worker_process env0 quit_always 1 idx_two_enqueued)"

definition req_plain :: http_req where
  "req_plain =
     \<lparr>start_ts = 100, route_hash = 7, params = Map.empty, body = [],
      last_chunk_aggregate = True, log_index = 1, proceed_req = False\<rparr>"

definition rec_plain :: req_res_t where
  "rec_plain =
     \<lparr>prev_req_body = [], req = req_plain, res = http_res_new, batch_begin_ts = 1000,
      num_chunks = 1, next_chunk_index = 0, is_complete = True\<rparr>"

definition idx_plain :: indexer where
  "idx_plain = idx_empty\<lparr>req_res_map := [(100, rec_plain)], queued_writes := 1\<rparr>"

definition rec_lost_route :: req_res_t where
  "rec_lost_route =
     rec_plain\<lparr>req := req_plain\<lparr>route_hash := 8, params := [''collection'' \<mapsto> []]\<rparr>\<rparr>"

definition idx_lost_route :: indexer where
  "idx_lost_route = idx_empty\<lparr>req_res_map := [(100, rec_lost_route)], queued_writes := 1\<rparr>"

section \<open>Properties of the chunk keys\<close>

lemma length_be_bytes [simp]: "length (be_bytes n v) = n"
  by (induction n arbitrary: v) auto

lemma append_less_same: "(xs @ u < xs @ v) = (u < (v :: 'a :: order list))"
  by (induction xs) auto

lemma append_less_mono:
  "xs < ys \<Longrightarrow> length xs = length ys \<Longrightarrow> xs @ u < ys @ (v :: 'a :: order list)"
proof (induction xs arbitrary: ys)
  case Nil
  then show ?case by simp
next
  case (Cons x xs)
  then obtain y ys' where "ys = y # ys'" by (cases ys) auto
  with Cons show ?case by auto
qed

lemma char_of_less: "(char_of (a::nat) < char_of (b::nat)) = (a mod 256 < b mod 256)"
  by (simp add: less_char_def)

lemma split256:
  assumes "(a::nat) < b"
  shows "a div 256 < b div 256 \<or> (a div 256 = b div 256 \<and> a mod 256 < b mod 256)"
proof (cases "a div 256 < b div 256")
  case True
  then show ?thesis by simp
next
  case False
  moreover have "a div 256 \<le> b div 256" using assms by (simp add: div_le_mono)
  ultimately have q: "a div 256 = b div 256" by simp
  have "a div 256 * 256 + a mod 256 < b div 256 * 256 + b mod 256"
    using assms by (simp only: div_mult_mod_eq)
  then have "a mod 256 < b mod 256" by (simp only: q nat_add_left_cancel_less)
  with q show ?thesis by simp
qed

lemma div256_less: "(b::nat) < 256 ^ Suc n \<Longrightarrow> b div 256 < 256 ^ n"
  by (simp add: less_mult_imp_div_less)

lemma be_bytes_mono: "a < b \<Longrightarrow> b < 256 ^ n \<Longrightarrow> be_bytes n a < be_bytes n b"
proof (induction n arbitrary: a b)
  case 0
  then show ?case by simp
next
  case (Suc n)
  have b: "b div 256 < 256 ^ n" using Suc.prems(2) by (rule div256_less)
  from split256[OF Suc.prems(1)] show ?case
  proof
    assume 1: "a div 256 < b div 256"
    from Suc.IH[OF 1 b] show ?thesis by (simp add: append_less_mono)
  next
    assume 2: "a div 256 = b div 256 \<and> a mod 256 < b mod 256"
    then show ?thesis by (simp add: append_less_same char_of_less)
  qed
qed

lemma serialize_uint32_t_mono: "i < j \<Longrightarrow> serialize_uint32_t i < serialize_uint32_t j"
proof -
  assume "i < j"
  then have "unat i < unat j" by (simp add: word_less_nat_alt)
  moreover have "unat j < 256 ^ 4" using unsigned_less[of j] by simp
  ultimately show ?thesis unfolding serialize_uint32_t_def by (rule be_bytes_mono)
qed

lemma serialize_uint32_t_inj: "serialize_uint32_t i = serialize_uint32_t j \<Longrightarrow> i = j"
  using serialize_uint32_t_mono[of i j] serialize_uint32_t_mono[of j i]
  by (cases "i < j"; cases "j < i") auto

lemma serialize_uint64_t_inj: "serialize_uint64_t a = serialize_uint64_t b \<Longrightarrow> a = b"
proof -
  assume eq: "serialize_uint64_t a = serialize_uint64_t b"
  have lt: "unat x < 256 ^ 8" for x :: "64 word" using unsigned_less[of x] by simp
  have "\<not> unat a < unat b"
    using be_bytes_mono[OF _ lt[of b], of "unat a"] eq by (auto simp: serialize_uint64_t_def)
  moreover have "\<not> unat b < unat a"
    using be_bytes_mono[OF _ lt[of a], of "unat b"] eq by (auto simp: serialize_uint64_t_def)
  ultimately show "a = b" by (simp add: word_unat_eq_iff)
qed

lemma length_serialize_uint32_t [simp]: "length (serialize_uint32_t i) = 4"
  by (simp add: serialize_uint32_t_def)

lemma length_serialize_uint64_t [simp]: "length (serialize_uint64_t i) = 8"
  by (simp add: serialize_uint64_t_def)

lemma chunk_key_mono: "i < j \<Longrightarrow> chunk_key e r i < chunk_key e r j"
  by (simp add: chunk_key_def append_less_same serialize_uint32_t_mono)

lemma chunk_key_inj: "chunk_key e r i = chunk_key e r j \<Longrightarrow> i = j"
  by (simp add: chunk_key_def serialize_uint32_t_inj)

lemma starts_with_append [simp]: "starts_with (p @ x) p"
  by (simp add: starts_with_def)

lemma starts_with_chunk_key [simp]: "starts_with (chunk_key e r i) (get_req_prefix_key e r)"
  by (simp add: chunk_key_def)

lemma starts_with_prefix_inj:
  assumes "starts_with (chunk_key e r' i) (get_req_prefix_key e r)"
  shows "r' = r"
proof -
  have "take (length (RAFT_REQ_LOG_PREFIX e) + 8) (chunk_key e r' i) =
        take (length (RAFT_REQ_LOG_PREFIX e) + 8) (get_req_prefix_key e r)"
    using assms
    by (metis (no_types, lifting) starts_with_def append_eq_conv_conj chunk_key_def
        get_req_prefix_key_def length_append length_serialize_uint64_t take_add
        append.assoc)
  then have "serialize_uint64_t r' = serialize_uint64_t r"
    by (simp add: chunk_key_def get_req_prefix_key_def)
  then show ?thesis by (rule serialize_uint64_t_inj)
qed

section \<open>Safety of the collection-name lookup\<close>

text \<open>
  C9. When the request's \<^verbatim>\<open>collection\<close> parameter is empty (absent or the empty string),
  \<^verbatim>\<open>get_collection_name\<close> ignores the boolean result of \<^verbatim>\<open>get_route\<close> and reads through the
  route pointer: it runs into the unset pointer exactly when no route exists for the
  request's \<open>route_hash\<close>, and it returns a name exactly when a route exists, so under
  that precondition the error branch is not reachable.
\<close>

theorem get_collection_name_needs_route:
  assumes "params rq ''collection'' = None \<or> params rq ''collection'' = Some []"
  shows "(get_collection_name e rq = Inl UnsetRoutePtr) = (get_route e (route_hash rq) = None)
       \<and> (\<exists>r. get_collection_name e rq = Inr r) = (get_route e (route_hash rq) \<noteq> None)"
  using assms
  by (auto simp: get_collection_name_def Let_def split: option.splits)

theorem get_collection_name_needs_route_witness:
  "params req0 ''collection'' = None
   \<and> get_collection_name env0 (req0\<lparr>route_hash := 8\<rparr>) = Inl UnsetRoutePtr
   \<and> (\<exists>r. get_collection_name env0 req0 = Inr r)"
  using get_collection_name_needs_route [of req0 env0]
        get_collection_name_needs_route [of "req0\<lparr>route_hash := 8\<rparr>" env0]
  by (simp add: req0_def env0_def)

section \<open>Deleting the chunks of a request\<close>

lemma le_append_self: "(p :: 'a :: order list) \<le> p @ x"
  by (induction p) auto

lemma append_le_same: "(xs @ u \<le> xs @ v) = (u \<le> (v :: 'a :: order list))"
  by (induction xs) auto

lemma between_prefix:
  "p @ a \<le> x \<Longrightarrow> x \<le> p @ c \<Longrightarrow> starts_with x (p :: string)"
proof (induction p arbitrary: x)
  case Nil
  then show ?case by (simp add: starts_with_def)
next
  case (Cons y p)
  then obtain z x' where x: "x = z # x'" by (cases x) auto
  with Cons.prems have "z = y" by auto
  with Cons x show ?case by (auto simp: starts_with_def)
qed

lemma serialize_uint32_t_le_max: "serialize_uint32_t c \<le> serialize_uint32_t UINT32_MAX"
proof (cases "c = UINT32_MAX")
  case True
  then show ?thesis by simp
next
  case False
  then have "c < UINT32_MAX" unfolding UINT32_MAX_def by (simp add: word_order.not_eq_extremum)
  then show ?thesis using serialize_uint32_t_mono less_imp_le by blast
qed

lemma chunk_key_in_range:
  "get_req_prefix_key e r \<le> chunk_key e r c \<and>
   chunk_key e r c \<le> get_req_prefix_key e r @ serialize_uint32_t UINT32_MAX"
  by (simp add: chunk_key_def le_append_self append_le_same serialize_uint32_t_le_max)

lemma in_range_starts_with:
  "get_req_prefix_key e r \<le> k \<Longrightarrow> k \<le> get_req_prefix_key e r @ x \<Longrightarrow>
   starts_with k (get_req_prefix_key e r)"
  using between_prefix[of "get_req_prefix_key e r" "[]" k x] by simp

lemma delete_req_chunks_gone: "chunk_key e r c \<notin> fst ` set (delete_req_chunks e r st)"
  using chunk_key_in_range[of e r c]
  by (auto simp: delete_req_chunks_def store_delete_range_def Let_def)

lemma delete_req_chunks_subset: "set (delete_req_chunks e r st) \<subseteq> set st"
  by (auto simp: delete_req_chunks_def store_delete_range_def Let_def)

lemma delete_req_chunks_other:
  "r' \<noteq> r \<Longrightarrow> (chunk_key e r' c, v) \<in> set st \<Longrightarrow> (chunk_key e r' c, v) \<in> set (delete_req_chunks e r st)"
  using in_range_starts_with[of e r "chunk_key e r' c"] starts_with_prefix_inj[of e r' c r]
  by (auto simp: delete_req_chunks_def store_delete_range_def Let_def)

section \<open>Garbage collection\<close>

lemma gc_scan_registry:
  "req_res_map (gc_scan e w it s) =
     filter (\<lambda>kv. \<not> (\<exists>x \<in> set it. gc_expired e w x \<and> fst x = fst kv)) (req_res_map s)"
proof (induction it arbitrary: s)
  case Nil
  then show ?case by simp
next
  case (Cons x it)
  show ?case
    by (auto simp: Cons.IH Let_def gc_expired_def reg_erase_def intro!: filter_cong)
qed

lemma delete_req_chunks_filter:
  "delete_req_chunks e r st = filter (\<lambda>kv. \<not> in_req_range e r (fst kv)) st"
  by (simp add: delete_req_chunks_def store_delete_range_def Let_def in_req_range_def)

lemma in_req_range_chunk_key: "in_req_range e r (chunk_key e r' c) = (r' = r)"
  using chunk_key_in_range[of e r c] in_range_starts_with[of e r "chunk_key e r' c"]
    starts_with_prefix_inj[of e r' c r]
  by (auto simp: in_req_range_def)

lemma gc_scan_store:
  "store (gc_scan e w it s) =
     filter (\<lambda>kv. \<not> (\<exists>x \<in> set it. gc_expired e w x \<and> in_req_range e (start_ts (req (snd x))) (fst kv)))
       (store s)"
proof (induction it arbitrary: s)
  case Nil
  then show ?case by simp
next
  case (Cons x it)
  show ?case
    by (auto simp: Cons.IH Let_def gc_expired_def delete_req_chunks_filter intro!: filter_cong)
qed

lemma registry_wf_key: "registry_wf reg \<Longrightarrow> (k, rr) \<in> set reg \<Longrightarrow> start_ts (req rr) = k"
  by (auto simp: registry_wf_def list_all_iff)

lemma registry_wf_map_of: "registry_wf reg \<Longrightarrow> (k, rr) \<in> set reg \<Longrightarrow> map_of reg k = Some rr"
  by (simp add: registry_wf_def)

lemma registry_wf_unique:
  "registry_wf reg \<Longrightarrow> (k, rr) \<in> set reg \<Longrightarrow> (k, rr') \<in> set reg \<Longrightarrow> rr' = rr"
  using registry_wf_map_of[of reg k rr] registry_wf_map_of[of reg k rr'] by simp

text \<open>
  C3. On a GC tick that is due (more than \<open>GC_INTERVAL_SECONDS\<close> since the last run), every
  record of the registry whose age \<open>wall_now - batch_begin_ts\<close> (unsigned 64-bit
  subtraction) exceeds \<open>GC_PRUNE_MAX_SECONDS\<close> is erased and no chunk key of its request
  id is left in the store, whatever its \<open>is_complete\<close> flag and whatever the shard queues
  hold; every record whose age does not exceed the threshold stays in the registry as it
  was and keeps its chunks. The registry has one record per key and each record is filed
  under the id of its request.
\<close>

theorem gc_tick_prunes_expired:
  assumes due: "GC_INTERVAL_SECONDS e < word_of_int (duration_seconds (hr_now - last_gc_run s))"
    and wf: "registry_wf (req_res_map s)"
    and inreg: "(k, rr) \<in> set (req_res_map s)"
  shows "if GC_PRUNE_MAX_SECONDS e < wall_now k - batch_begin_ts rr
         then map_of (req_res_map (gc_tick e hr_now wall_now hr_after s)) k = None
            \<and> (\<forall>c. chunk_key e k c \<notin> fst ` set (store (gc_tick e hr_now wall_now hr_after s)))
         else map_of (req_res_map (gc_tick e hr_now wall_now hr_after s)) k = Some rr
            \<and> (\<forall>c v. (chunk_key e k c, v) \<in> set (store s) \<longrightarrow>
                   (chunk_key e k c, v) \<in> set (store (gc_tick e hr_now wall_now hr_after s)))"
proof -
  let ?s' = "gc_tick e hr_now wall_now hr_after s"
  have reg: "req_res_map ?s' =
      filter (\<lambda>kv. \<not> (\<exists>x \<in> set (req_res_map s). gc_expired e wall_now x \<and> fst x = fst kv)) (req_res_map s)"
    using due by (simp add: gc_tick_def Let_def gc_scan_registry)
  have st: "store ?s' =
      filter (\<lambda>kv. \<not> (\<exists>x \<in> set (req_res_map s). gc_expired e wall_now x
                         \<and> in_req_range e (start_ts (req (snd x))) (fst kv))) (store s)"
    using due by (simp add: gc_tick_def Let_def gc_scan_store)
  show ?thesis
  proof (cases "GC_PRUNE_MAX_SECONDS e < wall_now k - batch_begin_ts rr")
    case True
    then have ex: "gc_expired e wall_now (k, rr)" by (simp add: gc_expired_def)
    have "k \<notin> fst ` set (req_res_map ?s')"
      using ex inreg by (force simp: reg)
    then have 1: "map_of (req_res_map ?s') k = None" by (simp add: map_of_eq_None_iff)
    have 2: "chunk_key e k c \<notin> fst ` set (store ?s')" for c
      using ex inreg registry_wf_key[OF wf inreg]
      by (force simp: st in_req_range_chunk_key)
    from True 1 2 show ?thesis by simp
  next
    case False
    have keep: "\<not> (\<exists>x \<in> set (req_res_map s). gc_expired e wall_now x \<and> fst x = k)"
    proof
      assume "\<exists>x \<in> set (req_res_map s). gc_expired e wall_now x \<and> fst x = k"
      then obtain rr' where m: "(k, rr') \<in> set (req_res_map s)" and x: "gc_expired e wall_now (k, rr')"
        by force
      from registry_wf_unique[OF wf inreg m] x False show False by (simp add: gc_expired_def)
    qed
    have d: "distinct (map fst (req_res_map ?s'))"
      using wf by (simp add: reg registry_wf_def distinct_map_filter)
    have "(k, rr) \<in> set (req_res_map ?s')" using keep inreg by (force simp: reg)
    with d have 1: "map_of (req_res_map ?s') k = Some rr" by simp
    have 2: "(chunk_key e k c, v) \<in> set (store ?s')" if "(chunk_key e k c, v) \<in> set (store s)" for c v
    proof -
      have "\<not> (\<exists>x \<in> set (req_res_map s). gc_expired e wall_now x
                 \<and> in_req_range e (start_ts (req (snd x))) (chunk_key e k c))"
      proof
        assume "\<exists>x \<in> set (req_res_map s). gc_expired e wall_now x
                 \<and> in_req_range e (start_ts (req (snd x))) (chunk_key e k c)"
        then obtain k' rr' where m: "(k', rr') \<in> set (req_res_map s)"
          and x: "gc_expired e wall_now (k', rr')"
          and r: "in_req_range e (start_ts (req rr')) (chunk_key e k c)" by force
        from r registry_wf_key[OF wf m] have "k' = k" by (simp add: in_req_range_chunk_key)
        with keep m x show False by force
      qed
      with that show ?thesis by (simp add: st)
    qed
    from False 1 2 show ?thesis by simp
  qed
qed

theorem gc_tick_prunes_expired_witness:
  "map_of (req_res_map (gc_tick env0 61000000005 (\<lambda>k. 10000) 61000000007 idx_gc)) 100 = None
   \<and> (\<forall>c. chunk_key env0 100 c
         \<notin> fst ` set (store (gc_tick env0 61000000005 (\<lambda>k. 10000) 61000000007 idx_gc)))
   \<and> map_of (req_res_map (gc_tick env0 61000000005 (\<lambda>k. 10000) 61000000007 idx_gc)) 200
       = Some rec_young
   \<and> (chunk_key env0 200 0, to_json (req_books\<lparr>start_ts := 200\<rparr>))
       \<in> set (store (gc_tick env0 61000000005 (\<lambda>k. 10000) 61000000007 idx_gc))"
  using gc_tick_prunes_expired [where e = env0 and hr_now = 61000000005 and s = idx_gc
      and k = 100 and rr = rec_unrouted and wall_now = "\<lambda>k. 10000" and hr_after = 61000000007]
    gc_tick_prunes_expired [where e = env0 and hr_now = 61000000005 and s = idx_gc
      and k = 200 and rr = rec_young and wall_now = "\<lambda>k. 10000" and hr_after = 61000000007]
  by (simp add: idx_gc_def idx_empty_def rec_unrouted_def rec_young_def env0_def req_books_def
      registry_wf_def duration_seconds_def)

section \<open>A request without a route\<close>

lemma worker_finish_gone:
  "map_of (req_res_map (worker_finish e r s)) r = None
   \<and> (\<forall>c. chunk_key e r c \<notin> fst ` set (store (worker_finish e r s)))"
  by (auto simp: worker_finish_def reg_erase_def map_of_eq_None_iff delete_req_chunks_gone)



lemma map_of_reg_update:
  "map_of (reg_update k f reg) k' = (if k' = k then map_option f (map_of reg k) else map_of reg k')"
  by (induction reg) (auto simp: reg_update_def)




section \<open>Requests of a version without batching\<close>

lemma wait_registry_empty_Some:
  assumes "wait_registry_empty view n = Some m"
  shows "n \<le> m \<and> req_res_map (view m) = []
       \<and> (\<forall>j. n \<le> j \<and> j < m \<longrightarrow> req_res_map (view j) \<noteq> [])"
proof -
  let ?P = "\<lambda>(view :: nat \<Rightarrow> indexer) n m. n \<le> m \<and> req_res_map (view m) = []
       \<and> (\<forall>j. n \<le> j \<and> j < m \<longrightarrow> req_res_map (view j) \<noteq> [])"
  have "?P view n m"
  proof (rule wait_registry_empty.raw_induct[where P = ?P and view = view and n = n and y = m])
    show "wait_registry_empty view n = Some m" by fact
  next
    fix f :: "(nat \<Rightarrow> indexer) \<Rightarrow> nat \<Rightarrow> nat option" and view n m
    assume ih: "\<And>v b y. f v b = Some y \<Longrightarrow> ?P v b y"
      and bd: "(if req_res_map (view n) = [] then Some n else f view (Suc n)) = Some m"
    show "?P view n m"
    proof (cases "req_res_map (view n) = []")
      case True
      with bd show ?thesis by auto
    next
      case False
      with bd have f: "f view (Suc n) = Some m" by simp
      from ih[OF f] have h: "Suc n \<le> m" "req_res_map (view m) = []"
        "\<And>j. Suc n \<le> j \<Longrightarrow> j < m \<Longrightarrow> req_res_map (view j) \<noteq> []" by auto
      have "req_res_map (view j) \<noteq> []" if "n \<le> j" "j < m" for j
        using that h(3)[of j] False by (cases "j = n") auto
      with h(1,2) show ?thesis by auto
    qed
  qed
  then show ?thesis .
qed

lemma wait_registry_empty_returns:
  "req_res_map (view (n + k)) = [] \<Longrightarrow> \<exists>m. wait_registry_empty view n = Some m"
proof (induction k arbitrary: n)
  case 0
  then show ?case by (simp add: wait_registry_empty.simps)
next
  case (Suc k)
  then have "\<exists>m. wait_registry_empty view (Suc n) = Some m" by simp
  then show ?case by (subst wait_registry_empty.simps) simp
qed

lemma map_of_reg_emplace:
  "map_of (reg_emplace k v reg) k' =
     (case map_of reg k of None \<Rightarrow> (if k' = k then (case map_of reg k' of None \<Rightarrow> Some v | Some x \<Rightarrow> Some x) else map_of reg k')
      | Some _ \<Rightarrow> map_of reg k')"
  by (auto simp: reg_emplace_def map_add_def split: option.splits)

lemma enqueue_core_last_complete:
  assumes last: "last_chunk_aggregate rq"
    and core: "enqueue_core e wall_now rq rs s = Inr (rq', s1)"
  shows "\<exists>rr. map_of (req_res_map s1) (start_ts rq) = Some rr \<and> is_complete rr"
proof (cases "map_of (req_res_map s) (start_ts rq)")
  case None
  with last core show ?thesis
    by (auto simp: enqueue_core_def Let_def map_of_reg_update map_of_reg_emplace
        split: sum.splits if_splits)
next
  case (Some a)
  with last core show ?thesis
    by (auto simp: enqueue_core_def Let_def map_of_reg_update
        split: sum.splits if_splits)
qed

text \<open>
  C7. For a call of \<^verbatim>\<open>enqueue\<close> with request id 0 and the last-chunk flag set, the record
  is marked complete, and then the call looks at the registry again and again, sleeping
  10 ms after each look that finds it non-empty: it returns only after a look that found
  the registry empty, having slept 10 ms for each of the earlier looks, and the
  \<open>REQUEST_PROCEED_MESSAGE\<close> (sent if the transport asks for it) is added to the
  indexer of that look; when no look finds the registry empty the call does not return,
  and so sends nothing.
\<close>

theorem enqueue_legacy_request_waits:
  assumes old: "start_ts rq = 0"
    and last: "last_chunk_aggregate rq"
    and core: "enqueue_core e wall_now rq rs s = Inr (rq', s1)"
  shows "(\<exists>rr. map_of (req_res_map s1) 0 = Some rr \<and> is_complete rr)
       \<and> (case enqueue e wall_now view rq rs s of
            None \<Rightarrow> \<forall>n. req_res_map (view n) \<noteq> []
          | Some r \<Rightarrow>
              \<exists>n. req_res_map (view n) = [] \<and> (\<forall>j<n. req_res_map (view j) \<noteq> [])
                \<and> r = Inr (rq', send_proceed (proceed_req rq) rq' rs (view n), 10 * n))"
proof
  show "\<exists>rr. map_of (req_res_map s1) 0 = Some rr \<and> is_complete rr"
    using enqueue_core_last_complete[OF last core] old by simp
next
  show "case enqueue e wall_now view rq rs s of
            None \<Rightarrow> \<forall>n. req_res_map (view n) \<noteq> []
          | Some r \<Rightarrow>
              \<exists>n. req_res_map (view n) = [] \<and> (\<forall>j<n. req_res_map (view j) \<noteq> [])
                \<and> r = Inr (rq', send_proceed (proceed_req rq) rq' rs (view n), 10 * n)"
  proof (cases "wait_registry_empty view 0")
    case None
    have "req_res_map (view n) \<noteq> []" for n
      using wait_registry_empty_returns[of view 0 n] None by auto
    with None show ?thesis
      using old last core by (simp add: enqueue_def Let_def)
  next
    case (Some n)
    from wait_registry_empty_Some[OF Some] Some show ?thesis
      using old last core by (simp add: enqueue_def Let_def)
  qed
qed

theorem enqueue_legacy_request_waits_witness:
  "start_ts req_legacy = 0 \<and> last_chunk_aggregate req_legacy
   \<and> (\<exists>rq' s1. enqueue_core env0 5 req_legacy res_live idx_empty = Inr (rq', s1)
        \<and> (\<exists>rr. map_of (req_res_map s1) 0 = Some rr \<and> is_complete rr)
        \<and> enqueue env0 5 view_legacy req_legacy res_live idx_empty
            = Some (Inr (rq', send_proceed True rq' res_live idx_empty, 20)))"
proof -
  have old: "start_ts req_legacy = 0" and last: "last_chunk_aggregate req_legacy"
    by (simp_all add: req_legacy_def req_books_def)
  have "\<exists>r. enqueue_core env0 5 req_legacy res_live idx_empty = Inr r"
    by (simp add: enqueue_core_def get_collection_name_def Let_def req_legacy_def req_books_def
        env0_def idx_empty_def)
  then obtain rq' s1 where core: "enqueue_core env0 5 req_legacy res_live idx_empty = Inr (rq', s1)"
    by force
  have v2: "req_res_map (view_legacy 2) = []"
    by (simp add: view_legacy_def idx_empty_def)
  have v01: "req_res_map (view_legacy j) \<noteq> []" if "j < 2" for j
    using that by (simp add: view_legacy_def idx_unrouted_def idx_empty_def)
  from enqueue_legacy_request_waits [OF old last core, of view_legacy]
  obtain rr r n where rr: "map_of (req_res_map s1) 0 = Some rr \<and> is_complete rr"
    and r: "enqueue env0 5 view_legacy req_legacy res_live idx_empty = Some r"
    and n: "req_res_map (view_legacy n) = []" "\<forall>j<n. req_res_map (view_legacy j) \<noteq> []"
      "r = Inr (rq', send_proceed (proceed_req req_legacy) rq' res_live (view_legacy n), 10 * n)"
    using v2 by (cases "enqueue env0 5 view_legacy req_legacy res_live idx_empty") auto
  have "n = 2"
  proof (rule ccontr)
    assume "n \<noteq> 2"
    then consider "n < 2" | "2 < n" by linarith
    then show False using n(1,2) v2 v01 by cases auto
  qed
  with n(3) have "r = Inr (rq', send_proceed True rq' res_live idx_empty, 20)"
    by (simp add: view_legacy_def req_legacy_def req_books_def)
  with old last core rr r show ?thesis by auto
qed

section \<open>The scan of the chunks of a request\<close>

lemma sorted_assoc_unique:
  assumes sx: "sorted (map fst xs)" and dx: "distinct (map fst xs)"
    and sy: "sorted (map fst ys)" and dy: "distinct (map fst ys)"
    and eq: "set xs = set ys"
  shows "xs = ys"
proof -
  have "set (map fst xs) = set (map fst ys)" using eq by simp
  with sx dx sy dy have keys: "map fst xs = map fst ys"
    by (rule sorted_distinct_set_unique)
  then have len: "length xs = length ys" by (metis length_map)
  have "xs ! i = ys ! i" if i: "i < length xs" for i
  proof -
    have "xs ! i \<in> set ys" using i eq by (metis nth_mem)
    then obtain j where j: "j < length ys" "ys ! j = xs ! i" by (auto simp: in_set_conv_nth)
    have "map fst ys ! j = map fst ys ! i"
      using j i len keys by (metis nth_map)
    moreover have "j < length (map fst ys)" "i < length (map fst ys)" using j i len by simp_all
    ultimately have "j = i" using dy nth_eq_iff_index_eq[of "map fst ys" j i] by blast
    with j show ?thesis by simp
  qed
  with len show ?thesis by (simp add: list_eq_iff_nth_eq)
qed

lemma distinct_map_insort_key:
  "distinct (map f (insort_key f x xs)) = (f x \<notin> f ` set xs \<and> distinct (map f xs))"
  by (induction xs) (auto simp: set_insort_key)

lemma distinct_map_sort_key: "distinct (map f (sort_key f xs)) = distinct (map f xs)"
  by (induction xs) (simp_all add: distinct_map_insort_key)

lemma starts_with_split: "starts_with y p \<Longrightarrow> \<exists>c. y = p @ c"
  unfolding starts_with_def by (metis append_take_drop_id)

lemma takeWhile_prefix_filter:
  assumes "sorted (map fst xs)" and "\<forall>kv \<in> set xs. p @ a \<le> fst kv"
  shows "takeWhile (\<lambda>kv. starts_with (fst kv) p) xs = filter (\<lambda>kv. starts_with (fst kv) p) xs"
  using assms
proof (induction xs)
  case Nil
  then show ?case by simp
next
  case (Cons x xs)
  show ?case
  proof (cases "starts_with (fst x) p")
    case True
    with Cons show ?thesis by simp
  next
    case False
    have "\<not> starts_with (fst y) p" if y: "y \<in> set xs" for y
    proof
      assume "starts_with (fst y) p"
      then obtain c where c: "fst y = p @ c" using starts_with_split by blast
      have "fst x \<le> fst y" using Cons.prems(1) y by auto
      moreover have "p @ a \<le> fst x" using Cons.prems(2) by simp
      ultimately have "starts_with (fst x) p" using between_prefix[of p a "fst x" c] c by simp
      with False show False by simp
    qed
    then have "filter (\<lambda>kv. starts_with (fst kv) p) xs = []" by (simp add: filter_empty_conv)
    with False show ?thesis by simp
  qed
qed

lemma chunk_key_le_iff: "(chunk_key e r i \<le> chunk_key e r j) = (i \<le> j)"
  using chunk_key_mono[of i j e r] chunk_key_mono[of j i e r]
  by (metis leD leI le_less order_refl)

lemma of_nat_less_32: "i < j \<Longrightarrow> j < 2 ^ 32 \<Longrightarrow> (of_nat i :: 32 word) < of_nat j"
  by (simp add: word_of_nat_less_iff take_bit_nat_eq_self)

lemma chunk_entries_sorted:
  "sorted (map fst (chunk_entries e r nxt num st)) \<and> distinct (map fst (chunk_entries e r nxt num st))"
proof -
  have "sorted_wrt (\<lambda>i j. chunk_key e r (of_nat i) < chunk_key e r (of_nat j)) [unat nxt ..< unat num]"
  proof (rule sorted_wrt_mono_rel[of _ "(<)"])
    show "sorted_wrt (<) [unat nxt ..< unat num]" by simp
  next
    fix i j assume "i \<in> set [unat nxt ..< unat num]" "j \<in> set [unat nxt ..< unat num]" "i < j"
    moreover have "unat num < 2 ^ 32" using unsigned_less[of num] by simp
    ultimately have "(of_nat i :: 32 word) < of_nat j" by (auto intro: of_nat_less_32)
    then show "chunk_key e r (of_nat i) < chunk_key e r (of_nat j)" by (rule chunk_key_mono)
  qed
  then have "sorted_wrt (<) (map fst (chunk_entries e r nxt num st))"
    by (simp add: chunk_entries_def sorted_wrt_map o_def)
  then show ?thesis by (simp add: strict_sorted_iff)
qed

lemma store_scan_chunks:
  assumes dense: "chunks_dense e r num st"
  shows "takeWhile (\<lambda>kv. starts_with (fst kv) (get_req_prefix_key e r))
           (store_scan (chunk_key e r nxt) st) = chunk_entries e r nxt num st"
proof -
  let ?P = "\<lambda>kv :: string \<times> req_json. starts_with (fst kv) (get_req_prefix_key e r)"
  let ?A = "store_scan (chunk_key e r nxt) st"
  from dense have dist: "distinct (map fst st)"
    and only: "\<And>kv. kv \<in> set st \<Longrightarrow> ?P kv \<Longrightarrow> \<exists>c. c < num \<and> fst kv = chunk_key e r c"
    and all: "\<And>c. c < num \<Longrightarrow> chunk_key e r c \<in> fst ` set st"
    by (auto simp: chunks_dense_def)
  have sA: "sorted (map fst ?A)" by (simp add: store_scan_def)
  have geA: "\<forall>kv \<in> set ?A. get_req_prefix_key e r @ serialize_uint32_t nxt \<le> fst kv"
    by (simp add: store_scan_def chunk_key_def)
  have tw: "takeWhile ?P ?A = filter ?P ?A"
    using sA geA by (rule takeWhile_prefix_filter)
  have dA: "distinct (map fst ?A)"
    using dist by (simp add: store_scan_def distinct_map_sort_key distinct_map_filter)
  have sB: "sorted (map fst (filter ?P ?A))" using sA by (rule sorted_filter)
  have dB: "distinct (map fst (filter ?P ?A))" using dA by (rule distinct_map_filter)
  have setB: "set (filter ?P ?A) = set (chunk_entries e r nxt num st)"
  proof (rule set_eqI)
    fix kv :: "string \<times> req_json"
    show "kv \<in> set (filter ?P ?A) \<longleftrightarrow> kv \<in> set (chunk_entries e r nxt num st)"
    proof
      assume "kv \<in> set (filter ?P ?A)"
      then have mem: "kv \<in> set st" and ge: "chunk_key e r nxt \<le> fst kv" and p: "?P kv"
        by (auto simp: store_scan_def)
      from only[OF mem p] obtain c where c: "c < num" "fst kv = chunk_key e r c" by blast
      with ge have nc: "nxt \<le> c" by (simp add: chunk_key_le_iff)
      have mo: "map_of st (chunk_key e r c) = Some (snd kv)"
        using dist mem c(2) by (metis map_of_is_SomeI prod.collapse)
      have "unat nxt \<le> unat c" "unat c < unat num"
        using nc c(1) by (simp_all add: word_le_nat_alt word_less_nat_alt)
      moreover have "kv = (chunk_key e r (of_nat (unat c)), the (map_of st (chunk_key e r (of_nat (unat c)))))"
        using mo c(2) by (cases kv) simp
      ultimately show "kv \<in> set (chunk_entries e r nxt num st)"
        unfolding chunk_entries_def by (metis (no_types, lifting) atLeastLessThan_iff image_eqI set_map set_upt)
    next
      assume "kv \<in> set (chunk_entries e r nxt num st)"
      then obtain i where i: "unat nxt \<le> i" "i < unat num"
        and kv: "kv = (chunk_key e r (of_nat i), the (map_of st (chunk_key e r (of_nat i))))"
        by (auto simp: chunk_entries_def)
      let ?c = "of_nat i :: 32 word"
      have ui: "unat ?c = i" using i(2) le_unat_uoi[of i num] by simp
      have c: "?c < num" "nxt \<le> ?c" using i ui by (simp_all add: word_le_nat_alt word_less_nat_alt)
      from all[OF c(1)] obtain v where v: "(chunk_key e r ?c, v) \<in> set st" by force
      with dist have "map_of st (chunk_key e r ?c) = Some v" by simp
      with kv have kv': "kv = (chunk_key e r ?c, v)" by simp
      show "kv \<in> set (filter ?P ?A)"
        using v c(2) by (simp add: kv' store_scan_def chunk_key_le_iff)
    qed
  qed
  from sorted_assoc_unique[OF sB dB _ _ setB] chunk_entries_sorted[of e r nxt num st] tw
  show ?thesis by simp
qed

section \<open>The scan loop\<close>

lemma drain_route_Cons:
  "starts_with (fst kv) pre \<Longrightarrow>
   drain e pre (Some rpath) live quit n (kv # it) d =
     (if quit n then apply_chunk e rpath live kv d
      else drain e pre (Some rpath) live quit (Suc n) it (apply_chunk e rpath live kv d))"
  by (simp add: apply_chunk_def Let_def starts_with_def)

lemma drain_none_Cons:
  "starts_with (fst kv) pre \<Longrightarrow>
   drain e pre None live quit n (kv # it) d = drain e pre None live quit n [kv] d"
  by (simp add: Let_def)

lemma drain_takeWhile:
  "drain e pre rp live quit n (takeWhile (\<lambda>kv. starts_with (fst kv) pre) it) d =
   drain e pre rp live quit n it d"
proof (induction it arbitrary: n d)
  case Nil
  then show ?case by simp
next
  case (Cons kv it)
  show ?case
  proof (cases "starts_with (fst kv) pre")
    case True
    show ?thesis
    proof (cases rp)
      case None
      show ?thesis
        using True drain_none_Cons[OF True, of e live quit n it d]
          drain_none_Cons[OF True, of e live quit n "takeWhile (\<lambda>kv. starts_with (fst kv) pre) it" d]
        by (simp add: None del: drain.simps)
    next
      case (Some rpath)
      show ?thesis
        using True Cons.IH by (simp add: Some drain_route_Cons del: drain.simps)
    qed
  next
    case False
    then show ?thesis by simp
  qed
qed

lemma apply_chunk_fields:
  "d_queued_writes (apply_chunk e rpath live kv d) = d_queued_writes d - 1"
  "next_chunk_index (d_rec (apply_chunk e rpath live kv d)) = next_chunk_index (d_rec d) + 1"
  "map fst (d_handler_calls (apply_chunk e rpath live kv d)) = map fst (d_handler_calls d) @ [fst kv]"
  by (simp_all add: apply_chunk_def Let_def starts_with_def)

lemma drain_all:
  assumes "\<forall>kv \<in> set it. starts_with (fst kv) pre" and "\<forall>j. \<not> quit j"
  shows "d_queued_writes (drain e pre (Some rpath) live quit n it d) = d_queued_writes d - of_nat (length it)
       \<and> next_chunk_index (d_rec (drain e pre (Some rpath) live quit n it d))
           = next_chunk_index (d_rec d) + of_nat (length it)
       \<and> map fst (d_handler_calls (drain e pre (Some rpath) live quit n it d))
           = map fst (d_handler_calls d) @ map fst it"
  using assms
proof (induction it arbitrary: n d)
  case Nil
  then show ?case by simp
next
  case (Cons kv it)
  have p: "starts_with (fst kv) pre" and nq: "\<not> quit n" using Cons.prems by simp_all
  have step: "drain e pre (Some rpath) live quit n (kv # it) d =
      drain e pre (Some rpath) live quit (Suc n) it (apply_chunk e rpath live kv d)"
    using p nq by (simp only: drain_route_Cons if_False)
  have ih: "\<forall>kv \<in> set it. starts_with (fst kv) pre" using Cons.prems(1) by simp
  show ?case
    unfolding step using Cons.IH[OF ih Cons.prems(2), of "Suc n" "apply_chunk e rpath live kv d"]
    by (simp add: apply_chunk_fields)
qed

lemma drain_quit:
  assumes "\<forall>kv \<in> set it. starts_with (fst kv) pre"
    and "m < length it" and "\<forall>j<m. \<not> quit (n + j)" and "quit (n + m)"
  shows "drain e pre (Some rpath) live quit n it d =
         drain e pre (Some rpath) live (\<lambda>j. False) n (take (Suc m) it) d"
  using assms
proof (induction it arbitrary: n m d)
  case Nil
  then show ?case by simp
next
  case (Cons kv it)
  show ?case
  proof (cases m)
    case 0
    with Cons.prems show ?thesis by (simp add: drain_route_Cons del: drain.simps(2))
  next
    case (Suc m')
    have nq: "\<not> quit n" using Cons.prems(3) Suc by (metis add.right_neutral zero_less_Suc)
    have 1: "\<forall>kv \<in> set it. starts_with (fst kv) pre" using Cons.prems(1) by simp
    have 2: "m' < length it" using Cons.prems(2) Suc by simp
    have 3: "\<forall>j<m'. \<not> quit (Suc n + j)" using Cons.prems(3) Suc by (metis Suc_mono add_Suc_shift)
    have 4: "quit (Suc n + m')" using Cons.prems(4) Suc by simp
    from Cons.IH[OF 1 2 3 4] nq Cons.prems(1) show ?thesis
      by (simp add: drain_route_Cons Suc del: drain.simps(2))
  qed
qed

section \<open>Enqueuing the chunks of a request\<close>

lemma less_plus_1_32: "num + 1 \<noteq> 0 \<Longrightarrow> (c < num + 1) = (c < num \<or> c = (num :: 32 word))"
proof -
  assume "num + 1 \<noteq> 0"
  then have "unat (num + 1) = Suc (unat num)" using unatSuc[of num] by (simp add: add.commute)
  then show ?thesis by (auto simp: word_less_nat_alt word_unat_eq_iff)
qed

lemma store_insert_dense:
  assumes dense: "chunks_dense e r num st" and nz: "num + 1 \<noteq> 0"
  shows "chunks_dense e r (num + 1) (store_insert (chunk_key e r num) v st)"
proof -
  from dense have dist: "distinct (map fst st)"
    and only: "\<And>kv. kv \<in> set st \<Longrightarrow> starts_with (fst kv) (get_req_prefix_key e r) \<Longrightarrow>
                 \<exists>c. c < num \<and> fst kv = chunk_key e r c"
    and all: "\<And>c. c < num \<Longrightarrow> chunk_key e r c \<in> fst ` set st"
    by (auto simp: chunks_dense_def)
  have d: "distinct (map fst (store_insert (chunk_key e r num) v st))"
    using dist by (auto simp: store_insert_def distinct_map_filter)
  have o: "\<exists>c. c < num + 1 \<and> fst kv = chunk_key e r c"
    if "kv \<in> set (store_insert (chunk_key e r num) v st)"
      "starts_with (fst kv) (get_req_prefix_key e r)" for kv
    using that only[of kv] by (auto simp: store_insert_def less_plus_1_32[OF nz])
  have a: "chunk_key e r c \<in> fst ` set (store_insert (chunk_key e r num) v st)" if "c < num + 1" for c
  proof (cases "c = num")
    case True
    then show ?thesis by (simp add: store_insert_def)
  next
    case False
    with that have "c < num" by (simp add: less_plus_1_32[OF nz])
    from all[OF this] obtain x where x: "x \<in> set st" "fst x = chunk_key e r c" by force
    have "fst x \<noteq> chunk_key e r num" using x(2) False chunk_key_inj by metis
    with x show ?thesis by (force simp: store_insert_def)
  qed
  from d o a show ?thesis unfolding chunks_dense_def by blast
qed

lemma get_collection_name_keeps:
  "get_collection_name e rq = Inr (c, rq') \<Longrightarrow>
     route_hash rq' = route_hash rq \<and> start_ts rq' = start_ts rq \<and> body rq' = body rq"
  by (auto simp: get_collection_name_def Let_def split: option.splits if_splits)

lemma enqueue_core_more:
  assumes inv: "enqueued e r h num s" and nz: "num + 1 \<noteq> 0"
    and r: "start_ts rq = r" and h: "route_hash rq = h" and nl: "\<not> last_chunk_aggregate rq"
  shows "\<exists>rq' s'. enqueue_core e wall_now rq rs s = Inr (rq', s') \<and> enqueued e r h (num + 1) s'
      \<and> queues s' = queues s \<and> queued_writes s' = queued_writes s
      \<and> handler_calls s' = handler_calls s \<and> messages s' = messages s"
proof (cases "map_of (req_res_map s) r")
  case None
  with inv have num: "num = 0" and dense: "chunks_dense e r 0 (store s)"
    by (auto simp: enqueued_def)
  from store_insert_dense[OF dense, of "to_json rq"]
  have d: "chunks_dense e r 1 (store_insert (chunk_key e r 0) (to_json rq) (store s))" by simp
  show ?thesis
    using None r h nl d
    by (simp add: enqueue_core_def Let_def enqueued_def num chunk_key_def
        map_of_reg_update map_of_reg_emplace)
next
  case (Some rr)
  with inv have rr: "num_chunks rr = num" "next_chunk_index rr = 0" "route_hash (req rr) = h"
    and dense: "chunks_dense e r num (store s)"
    by (simp_all add: enqueued_def)
  from store_insert_dense[OF dense nz, of "to_json rq"]
  have d: "chunks_dense e r (num + 1) (store_insert (chunk_key e r num) (to_json rq) (store s))" .
  show ?thesis
    using Some r h nl d rr
    by (simp add: enqueue_core_def Let_def enqueued_def chunk_key_def map_of_reg_update)
qed

lemma enqueue_core_last:
  assumes inv: "enqueued e r h num s" and nz: "num + 1 \<noteq> 0"
    and r: "start_ts rq = r" and h: "route_hash rq = h" and l: "last_chunk_aggregate rq"
    and gcn: "get_collection_name e (rq\<lparr>body := []\<rparr>) = Inr (coll, rq2)"
    and i: "i = unat (hash_wy e coll) mod num_threads e"
    and nt: "0 < num_threads e" and ql: "i < length (queues s)"
  shows "\<exists>rq' s'. enqueue_core e wall_now rq rs s = Inr (rq', s') \<and> enqueued e r h (num + 1) s'
      \<and> queues s' = (queues s)[i := queues s ! i @ [r]]
      \<and> queued_writes s' = queued_writes s + ucast (num + 1)
      \<and> handler_calls s' = handler_calls s \<and> messages s' = messages s"
proof (cases "map_of (req_res_map s) r")
  case None
  with inv have num: "num = 0" and dense: "chunks_dense e r 0 (store s)"
    by (auto simp: enqueued_def)
  from store_insert_dense[OF dense, of "to_json rq"]
  have d: "chunks_dense e r 1 (store_insert (chunk_key e r 0) (to_json rq) (store s))" by simp
  from get_collection_name_keeps[OF gcn] h have h2: "route_hash rq2 = h" by simp
  show ?thesis
    using None r l d gcn nt ql h2 i[symmetric]
    by (simp add: enqueue_core_def Let_def enqueued_def num chunk_key_def
        map_of_reg_update map_of_reg_emplace)
next
  case (Some rr)
  with inv have rr: "num_chunks rr = num" "next_chunk_index rr = 0" "route_hash (req rr) = h"
    and dense: "chunks_dense e r num (store s)"
    by (simp_all add: enqueued_def)
  from store_insert_dense[OF dense nz, of "to_json rq"]
  have d: "chunks_dense e r (num + 1) (store_insert (chunk_key e r num) (to_json rq) (store s))" .
  show ?thesis
    using Some r l d rr gcn nt ql i[symmetric]
    by (simp add: enqueue_core_def Let_def enqueued_def chunk_key_def map_of_reg_update)
qed

lemma of_nat_Suc_neq_0_32: "Suc j < 2 ^ 32 \<Longrightarrow> (of_nat j :: 32 word) + 1 \<noteq> 0"
proof -
  assume "Suc j < 2 ^ 32"
  then have "unat (of_nat (Suc j) :: 32 word) = Suc j"
    by (simp add: unat_of_nat del: of_nat_Suc)
  then have "(of_nat (Suc j) :: 32 word) \<noteq> 0" by (metis unat_0 nat.distinct(1))
  then show ?thesis by (simp add: add.commute)
qed

lemma enqueue_chunks_front:
  assumes "enqueued e r h (of_nat j) s" and "j + length front < 2 ^ 32"
    and "\<forall>c \<in> set front. start_ts (fst c) = r \<and> route_hash (fst c) = h \<and> \<not> last_chunk_aggregate (fst c)"
  shows "\<exists>s'. enqueue_chunks e wall_now front s = Inr s' \<and> enqueued e r h (of_nat (j + length front)) s'
      \<and> queues s' = queues s \<and> queued_writes s' = queued_writes s
      \<and> handler_calls s' = handler_calls s \<and> messages s' = messages s
      \<and> (\<forall>cs. enqueue_chunks e wall_now (front @ cs) s = enqueue_chunks e wall_now cs s')"
  using assms
proof (induction front arbitrary: j s)
  case Nil
  then show ?case by simp
next
  case (Cons c front)
  have nz: "(of_nat j :: 32 word) + 1 \<noteq> 0" using Cons.prems(2) by (intro of_nat_Suc_neq_0_32) simp
  from Cons.prems(3) have c: "start_ts (fst c) = r" "route_hash (fst c) = h" "\<not> last_chunk_aggregate (fst c)"
    by simp_all
  from enqueue_core_more[OF Cons.prems(1) nz c, of wall_now "snd c"]
  obtain rq' s1 where s1: "enqueue_core e wall_now (fst c) (snd c) s = Inr (rq', s1)"
    "enqueued e r h (of_nat j + 1) s1" "queues s1 = queues s" "queued_writes s1 = queued_writes s"
    "handler_calls s1 = handler_calls s" "messages s1 = messages s" by blast
  have inv1: "enqueued e r h (of_nat (Suc j)) s1" using s1(2) by (simp add: add.commute)
  have len: "Suc j + length front < 2 ^ 32" using Cons.prems(2) by simp
  have rest: "\<forall>c \<in> set front. start_ts (fst c) = r \<and> route_hash (fst c) = h \<and> \<not> last_chunk_aggregate (fst c)"
    using Cons.prems(3) by simp
  from Cons.IH[OF inv1 len rest] obtain s' where
    s': "enqueue_chunks e wall_now front s1 = Inr s'" "enqueued e r h (of_nat (Suc j + length front)) s'"
      "queues s' = queues s1" "queued_writes s' = queued_writes s1"
      "handler_calls s' = handler_calls s1" "messages s' = messages s1"
      "\<forall>cs. enqueue_chunks e wall_now (front @ cs) s1 = enqueue_chunks e wall_now cs s'" by blast
  show ?case
    using s1 s' by (simp del: of_nat_Suc of_nat_add)
qed

section \<open>The shard of a request without a collection name\<close>

text \<open>
  Line 54 takes the shard from the hash of the resolved name. When the name is empty the id
  of the request goes to the queue numbered by the hash of the empty string modulo the
  number of workers; this is queue 0 exactly when the number of workers divides that hash.
\<close>

lemma enqueue_core_shard_of_empty_name:
  assumes last: "last_chunk_aggregate rq"
    and name: "get_collection_name e (rq\<lparr>body := []\<rparr>) = Inr ([], rq')"
    and core: "enqueue_core e wall_now rq rs s = Inr (rq'', s')"
  shows "queues s' =
           (queues s)[unat (hash_wy e []) mod num_threads e :=
                        queues s ! (unat (hash_wy e []) mod num_threads e) @ [start_ts rq]]"
  using core last name
  by (auto simp: enqueue_core_def Let_def split: if_splits)

section \<open>A worker round on enqueued chunks\<close>

lemma worker_scan_dense:
  assumes dense: "chunks_dense e r num (store s)"
  shows "worker_scan e quit r rr s =
     (let d = drain e (get_req_prefix_key e r) (get_route e (route_hash (req rr))) (is_alive (res rr))
                quit 0 (chunk_entries e r (next_chunk_index rr) num (store s)) (drain_init rr s)
      in s\<lparr>req_res_map := reg_update r (\<lambda>_. d_rec d) (req_res_map s),
           queued_writes := d_queued_writes d, messages := d_messages d,
           handler_calls := d_handler_calls d, write_log_index := d_write_log_index d\<rparr>)"
proof -
  have "drain e (get_req_prefix_key e r) rp live quit 0
          (store_scan (chunk_key e r (next_chunk_index rr)) (store s)) d =
        drain e (get_req_prefix_key e r) rp live quit 0
          (chunk_entries e r (next_chunk_index rr) num (store s)) d" for rp live d
    using drain_takeWhile[of e "get_req_prefix_key e r" rp live quit 0
        "store_scan (chunk_key e r (next_chunk_index rr)) (store s)" d]
      store_scan_chunks[OF dense, of "next_chunk_index rr"]
    by simp
  then show ?thesis
    by (simp add: worker_scan_def Let_def drain_init_def chunk_key_def)
qed

lemma chunk_entries_prefix:
  "\<forall>kv \<in> set (chunk_entries e r nxt num st). starts_with (fst kv) (get_req_prefix_key e r)"
  by (auto simp: chunk_entries_def)

lemma length_chunk_entries [simp]: "length (chunk_entries e r nxt num st) = unat num - unat nxt"
  by (simp add: chunk_entries_def)

lemma map_fst_chunk_entries:
  "map fst (chunk_entries e r nxt num st) = map (\<lambda>i. chunk_key e r (of_nat i)) [unat nxt ..< unat num]"
  by (simp add: chunk_entries_def o_def)

lemma worker_scan_route_all:
  assumes dense: "chunks_dense e r num (store s)"
    and route: "get_route e (route_hash (req rr)) = Some rpath"
    and nq: "\<forall>j. \<not> quit j"
  shows "queued_writes (worker_scan e quit r rr s) = queued_writes s - of_nat (unat num - unat (next_chunk_index rr))"
    and "map fst (handler_calls (worker_scan e quit r rr s)) =
           map fst (handler_calls s) @ map (\<lambda>i. chunk_key e r (of_nat i)) [unat (next_chunk_index rr) ..< unat num]"
    and "store (worker_scan e quit r rr s) = store s"
    and "queues (worker_scan e quit r rr s) = queues s"
  using drain_all[where e = e and rpath = rpath and live = "is_alive (res rr)" and n = 0
      and d = "drain_init rr s" and quit = quit and pre = "get_req_prefix_key e r"
      and it = "chunk_entries e r (next_chunk_index rr) num (store s)",
      OF chunk_entries_prefix nq]
  by (simp_all add: worker_scan_dense[OF dense] Let_def route map_fst_chunk_entries drain_init_def)

lemma worker_scan_no_route_frame:
  assumes route: "get_route e (route_hash (req rr)) = None"
  shows "queued_writes (worker_scan e quit r rr s) = queued_writes s"
    and "handler_calls (worker_scan e quit r rr s) = handler_calls s"
proof -
  have "d_queued_writes (drain e pre None live quit n it d) = d_queued_writes d
      \<and> d_handler_calls (drain e pre None live quit n it d) = d_handler_calls d" for pre live n it d
    by (cases it) (simp_all add: Let_def)
  then show "queued_writes (worker_scan e quit r rr s) = queued_writes s"
    and "handler_calls (worker_scan e quit r rr s) = handler_calls s"
    by (simp_all add: worker_scan_def Let_def route)
qed

lemma ucast_of_nat_32_64: "k < 2 ^ 32 \<Longrightarrow> (ucast (of_nat k :: 32 word) :: 64 word) = of_nat k"
proof -
  assume "k < 2 ^ 32"
  then have "unat (of_nat k :: 32 word) = k" by (simp add: unat_of_nat)
  moreover have "(ucast (of_nat k :: 32 word) :: 64 word) = of_nat (unat (of_nat k :: 32 word))"
    by simp
  ultimately show ?thesis by simp
qed

lemma enqueue_chunks_complete:
  assumes fresh: "map_of (req_res_map s) r = None" "chunks_dense e r 0 (store s)"
    and front: "\<forall>c \<in> set front. start_ts (fst c) = r \<and> route_hash (fst c) = h \<and> \<not> last_chunk_aggregate (fst c)"
    and last: "start_ts rq = r" "route_hash rq = h" "last_chunk_aggregate rq"
    and len: "Suc (length front) < 2 ^ 32"
    and gcn: "get_collection_name e (rq\<lparr>body := []\<rparr>) = Inr (coll, rq2)"
    and i: "i = unat (hash_wy e coll) mod num_threads e"
    and nt: "0 < num_threads e" and ql: "i < length (queues s)"
  shows "\<exists>s1 rr. enqueue_chunks e wall_now (front @ [(rq, rs)]) s = Inr s1
      \<and> chunks_dense e r (of_nat (Suc (length front))) (store s1)
      \<and> map_of (req_res_map s1) r = Some rr
      \<and> num_chunks rr = of_nat (Suc (length front)) \<and> next_chunk_index rr = 0
      \<and> route_hash (req rr) = h
      \<and> queues s1 = (queues s)[i := queues s ! i @ [r]]
      \<and> queued_writes s1 = queued_writes s + of_nat (Suc (length front))
      \<and> handler_calls s1 = handler_calls s \<and> messages s1 = messages s"
proof -
  have inv0: "enqueued e r h (of_nat 0) s" using fresh by (simp add: enqueued_def)
  have len0: "0 + length front < 2 ^ 32" using len by simp
  from enqueue_chunks_front[OF inv0 len0 front, of wall_now] obtain s' where
    s': "enqueued e r h (of_nat (length front)) s'"
      "queues s' = queues s" "queued_writes s' = queued_writes s"
      "handler_calls s' = handler_calls s" "messages s' = messages s"
      "\<forall>cs. enqueue_chunks e wall_now (front @ cs) s = enqueue_chunks e wall_now cs s'" by auto
  have nz: "(of_nat (length front) :: 32 word) + 1 \<noteq> 0" using len by (rule of_nat_Suc_neq_0_32)
  have ql': "i < length (queues s')" using ql s'(2) by simp
  from enqueue_core_last[OF s'(1) nz last gcn i nt ql', of wall_now rs] obtain rq' s1 where
    s1: "enqueue_core e wall_now rq rs s' = Inr (rq', s1)"
      "enqueued e r h (of_nat (length front) + 1) s1"
      "queues s1 = (queues s')[i := queues s' ! i @ [r]]"
      "queued_writes s1 = queued_writes s' + ucast (of_nat (length front) + 1 :: 32 word)"
      "handler_calls s1 = handler_calls s'" "messages s1 = messages s'" by blast
  have n1: "(of_nat (length front) + 1 :: 32 word) = of_nat (Suc (length front))"
    by (simp add: add.commute)
  have run: "enqueue_chunks e wall_now (front @ [(rq, rs)]) s = Inr s1"
    using s'(6) s1(1) by simp
  have nz1: "(of_nat (Suc (length front)) :: 32 word) \<noteq> 0"
    using nz n1 by simp
  from s1(2) nz1 obtain rr where rr: "map_of (req_res_map s1) r = Some rr"
    "num_chunks rr = of_nat (Suc (length front))" "next_chunk_index rr = 0" "route_hash (req rr) = h"
    unfolding n1 enqueued_def by (cases "map_of (req_res_map s1) r") auto
  have d: "chunks_dense e r (of_nat (Suc (length front))) (store s1)"
    using s1(2) unfolding n1 enqueued_def by simp
  have qw: "queued_writes s1 = queued_writes s + of_nat (Suc (length front))"
    using s1(4) s'(3) ucast_of_nat_32_64[OF len] unfolding n1 by simp
  from run d rr s1(3,5,6) s'(2,4,5) qw show ?thesis by auto
qed

lemma worker_process_front:
  assumes "i < length (queues s)" and "queues s ! i = r # rest"
    and "map_of (req_res_map s) r = Some rr"
  shows "worker_process e quit i s =
     Inr (worker_finish e r (worker_scan e quit r rr (s\<lparr>queues := (queues s)[i := rest]\<rparr>)))"
  using assms by (simp add: worker_process_def Let_def)

lemma worker_finish_frame:
  "queued_writes (worker_finish e r s) = queued_writes s"
  "handler_calls (worker_finish e r s) = handler_calls s"
  "messages (worker_finish e r s) = messages s"
  by (simp_all add: worker_finish_def)

section \<open>The counter of queued writes\<close>

lemma env0_books:
  "\<exists>rq2. get_collection_name env0 (req_books\<lparr>body := []\<rparr>) = Inr (''books'', rq2)"
  "\<exists>rq2. get_collection_name env0 (req_books\<lparr>route_hash := 8, body := []\<rparr>) = Inr (''books'', rq2)"
  by (simp_all add: get_collection_name_def Let_def req_books_def)

lemma env0_shard: "unat (hash_wy env0 ''books'') mod num_threads env0 = 1"
  by (simp add: env0_def)

lemma idx_empty_fresh:
  "map_of (req_res_map idx_empty) 100 = None" "chunks_dense env0 100 0 (store idx_empty)"
  "num_threads env0 = length (queues idx_empty)" "0 < num_threads env0" "queues idx_empty ! 1 = []"
  by (simp_all add: idx_empty_def chunks_dense_def env0_def)

lemma two_chunks_shape:
  "two_chunks = [(chunk_a, res_live)] @ [(req_books, res_live)]"
  "\<forall>c \<in> set [(chunk_a, res_live)]. start_ts (fst c) = 100 \<and> route_hash (fst c) = 7 \<and> \<not> last_chunk_aggregate (fst c)"
  "start_ts req_books = 100" "route_hash req_books = 7" "last_chunk_aggregate req_books"
  "Suc (length [(chunk_a, res_live)]) < 2 ^ 32"
  by (simp_all add: two_chunks_def chunk_a_def req_books_def)

lemma two_chunks_unrouted_shape:
  "two_chunks_unrouted = [(chunk_a\<lparr>route_hash := 8\<rparr>, res_live)] @ [(req_books\<lparr>route_hash := 8\<rparr>, res_live)]"
  "\<forall>c \<in> set [(chunk_a\<lparr>route_hash := 8\<rparr>, res_live)].
      start_ts (fst c) = 100 \<and> route_hash (fst c) = 8 \<and> \<not> last_chunk_aggregate (fst c)"
  "start_ts (req_books\<lparr>route_hash := 8\<rparr>) = 100" "route_hash (req_books\<lparr>route_hash := 8\<rparr>) = 8"
  "last_chunk_aggregate (req_books\<lparr>route_hash := 8\<rparr>)"
  "Suc (length [(chunk_a\<lparr>route_hash := 8\<rparr>, res_live)]) < 2 ^ 32"
  by (simp_all add: two_chunks_unrouted_def chunk_a_def req_books_def)

text \<open>
  C8. A request of \<open>k\<close> chunks (\<open>k\<close> below \<open>2^32\<close>, the range of the chunk counter) is
  enqueued into an indexer that holds nothing of its id, and its shard queue is empty, so
  the worker takes it next. Enqueuing the last chunk raises \<open>queued_writes\<close> by \<open>k\<close>; with a
  route for the request and no quit, the worker calls the handler \<open>k\<close> times and lowers
  \<open>queued_writes\<close> by one per call, so the counter is back at its old value; the chunks
  and the record are gone.
\<close>

theorem queued_writes_net_zero:
  assumes fresh: "map_of (req_res_map s) r = None" "chunks_dense e r 0 (store s)"
    and front: "\<forall>c \<in> set front. start_ts (fst c) = r \<and> route_hash (fst c) = h \<and> \<not> last_chunk_aggregate (fst c)"
    and last: "start_ts rq = r" "route_hash rq = h" "last_chunk_aggregate rq"
    and len: "Suc (length front) < 2 ^ 32"
    and gcn: "get_collection_name e (rq\<lparr>body := []\<rparr>) = Inr (coll, rq2)"
    and i: "i = unat (hash_wy e coll) mod num_threads e"
    and nt: "num_threads e = length (queues s)" "0 < num_threads e"
    and empty: "queues s ! i = []"
    and route: "get_route e h = Some rpath"
    and nq: "\<forall>j. \<not> quit j"
  shows "\<exists>s1 s2. enqueue_chunks e wall_now (front @ [(rq, rs)]) s = Inr s1
      \<and> queued_writes s1 = queued_writes s + of_nat (Suc (length front))
      \<and> worker_process e quit i s1 = Inr s2
      \<and> length (handler_calls s2) = length (handler_calls s) + Suc (length front)
      \<and> queued_writes s2 = queued_writes s1 - of_nat (Suc (length front))
      \<and> queued_writes s2 = queued_writes s
      \<and> map_of (req_res_map s2) r = None
      \<and> (\<forall>c. chunk_key e r c \<notin> fst ` set (store s2))"
proof -
  have ql: "i < length (queues s)" using i nt by simp
  from enqueue_chunks_complete[OF fresh front last len gcn i nt(2) ql, of wall_now rs]
  obtain s1 rr where s1: "enqueue_chunks e wall_now (front @ [(rq, rs)]) s = Inr s1"
    "chunks_dense e r (of_nat (Suc (length front))) (store s1)"
    "map_of (req_res_map s1) r = Some rr"
    "num_chunks rr = of_nat (Suc (length front))" "next_chunk_index rr = 0"
    "route_hash (req rr) = h"
    "queues s1 = (queues s)[i := queues s ! i @ [r]]"
    "queued_writes s1 = queued_writes s + of_nat (Suc (length front))"
    "handler_calls s1 = handler_calls s" "messages s1 = messages s" by blast
  let ?s1' = "s1\<lparr>queues := (queues s1)[i := []]\<rparr>"
  let ?sl = "worker_scan e quit r rr ?s1'"
  have q1: "i < length (queues s1)" "queues s1 ! i = r # []"
    using ql s1(7) empty by simp_all
  have wp: "worker_process e quit i s1 = Inr (worker_finish e r ?sl)"
    using worker_process_front[OF q1 s1(3)] .
  have un: "unat (of_nat (Suc (length front)) :: 32 word) = Suc (length front)"
    using len by (simp add: unat_of_nat del: of_nat_Suc)
  have dense': "chunks_dense e r (of_nat (Suc (length front))) (store ?s1')" using s1(2) by simp
  have route': "get_route e (route_hash (req rr)) = Some rpath" using route s1(6) by simp
  have "queued_writes ?sl = queued_writes ?s1'
      - of_nat (unat (of_nat (Suc (length front)) :: 32 word) - unat (next_chunk_index rr))"
    by (rule worker_scan_route_all(1)[OF dense' route' nq])
  then have qw: "queued_writes ?sl = queued_writes s1 - of_nat (Suc (length front))"
    unfolding un s1(5) by (simp del: of_nat_Suc)
  have "map fst (handler_calls ?sl) = map fst (handler_calls ?s1')
      @ map (\<lambda>i. chunk_key e r (of_nat i))
          [unat (next_chunk_index rr) ..< unat (of_nat (Suc (length front)) :: 32 word)]"
    by (rule worker_scan_route_all(2)[OF dense' route' nq])
  then have hc: "map fst (handler_calls ?sl) =
      map fst (handler_calls s1) @ map (\<lambda>i. chunk_key e r (of_nat i)) [0 ..< Suc (length front)]"
    unfolding un s1(5) by (simp del: of_nat_Suc upt_Suc)
  have "length (map fst (handler_calls ?sl)) = length (handler_calls s1) + Suc (length front)"
    unfolding hc by (simp del: upt_Suc)
  then have hl: "length (handler_calls ?sl) = length (handler_calls s) + Suc (length front)"
    using s1(9) by simp
  from s1(1,8) wp qw hl worker_finish_gone[of e r ?sl]
  show ?thesis by (simp add: worker_finish_frame del: of_nat_Suc)
qed

theorem queued_writes_net_zero_witness:
  "\<exists>s1 s2. enqueue_chunks env0 5 two_chunks idx_empty = Inr s1
      \<and> queued_writes s1 = queued_writes idx_empty + 2
      \<and> worker_process env0 quit_never 1 s1 = Inr s2
      \<and> length (handler_calls s2) = 2
      \<and> queued_writes s2 = queued_writes idx_empty"
proof -
  from env0_books(1) obtain rq2 where
    gcn: "get_collection_name env0 (req_books\<lparr>body := []\<rparr>) = Inr (''books'', rq2)" by blast
  have route: "get_route env0 7 = Some \<lparr>handler = 1, async_res = False\<rparr>" by (simp add: env0_def)
  have nq: "\<forall>j. \<not> quit_never j" by (simp add: quit_never_def)
  from queued_writes_net_zero [OF idx_empty_fresh(1,2) two_chunks_shape(2-6) gcn env0_shard[symmetric]
      idx_empty_fresh(3,4,5) route nq, of 5 res_live]
  obtain s1 s2 where "enqueue_chunks env0 5 two_chunks idx_empty = Inr s1"
    "queued_writes s1 = queued_writes idx_empty + of_nat (Suc (length [(chunk_a, res_live)]))"
    "worker_process env0 quit_never 1 s1 = Inr s2"
    "length (handler_calls s2) = length (handler_calls idx_empty) + Suc (length [(chunk_a, res_live)])"
    "queued_writes s2 = queued_writes idx_empty"
    unfolding two_chunks_shape(1) by blast
  then show ?thesis
    by (intro exI[of _ s1] exI[of _ s2]) (simp add: idx_empty_def)
qed

text \<open>
  C10. The same request when its \<open>route_hash\<close> has no route: the worker leaves the loop
  before any decrement, calls no handler, and deletes the chunks and the record, so
  \<open>queued_writes\<close> stays \<open>k\<close> above its old value.
\<close>

theorem queued_writes_kept_without_route:
  assumes fresh: "map_of (req_res_map s) r = None" "chunks_dense e r 0 (store s)"
    and front: "\<forall>c \<in> set front. start_ts (fst c) = r \<and> route_hash (fst c) = h \<and> \<not> last_chunk_aggregate (fst c)"
    and last: "start_ts rq = r" "route_hash rq = h" "last_chunk_aggregate rq"
    and len: "Suc (length front) < 2 ^ 32"
    and gcn: "get_collection_name e (rq\<lparr>body := []\<rparr>) = Inr (coll, rq2)"
    and i: "i = unat (hash_wy e coll) mod num_threads e"
    and nt: "num_threads e = length (queues s)" "0 < num_threads e"
    and empty: "queues s ! i = []"
    and route: "get_route e h = None"
  shows "\<exists>s1 s2. enqueue_chunks e wall_now (front @ [(rq, rs)]) s = Inr s1
      \<and> worker_process e quit i s1 = Inr s2
      \<and> handler_calls s2 = handler_calls s
      \<and> queued_writes s2 = queued_writes s + of_nat (Suc (length front))
      \<and> map_of (req_res_map s2) r = None
      \<and> (\<forall>c. chunk_key e r c \<notin> fst ` set (store s2))"
proof -
  have ql: "i < length (queues s)" using i nt by simp
  from enqueue_chunks_complete[OF fresh front last len gcn i nt(2) ql, of wall_now rs]
  obtain s1 rr where s1: "enqueue_chunks e wall_now (front @ [(rq, rs)]) s = Inr s1"
    "map_of (req_res_map s1) r = Some rr"
    "route_hash (req rr) = h"
    "queues s1 = (queues s)[i := queues s ! i @ [r]]"
    "queued_writes s1 = queued_writes s + of_nat (Suc (length front))"
    "handler_calls s1 = handler_calls s" by blast
  let ?s1' = "s1\<lparr>queues := (queues s1)[i := []]\<rparr>"
  let ?sl = "worker_scan e quit r rr ?s1'"
  have q1: "i < length (queues s1)" "queues s1 ! i = r # []"
    using ql s1(4) empty by simp_all
  have wp: "worker_process e quit i s1 = Inr (worker_finish e r ?sl)"
    using worker_process_front[OF q1 s1(2)] .
  have route': "get_route e (route_hash (req rr)) = None" using route s1(3) by simp
  from s1(1,5,6) wp worker_scan_no_route_frame[OF route', of quit r ?s1']
    worker_finish_gone[of e r ?sl]
  show ?thesis by (simp add: worker_finish_frame del: of_nat_Suc)
qed

theorem queued_writes_kept_without_route_witness:
  "\<exists>s1 s2. enqueue_chunks env0 5 two_chunks_unrouted idx_empty = Inr s1
      \<and> worker_process env0 quit_never 1 s1 = Inr s2
      \<and> handler_calls s2 = []
      \<and> queued_writes s2 = queued_writes idx_empty + 2
      \<and> map_of (req_res_map s2) 100 = None"
proof -
  from env0_books(2) obtain rq2 where
    gcn: "get_collection_name env0 (req_books\<lparr>route_hash := 8, body := []\<rparr>) = Inr (''books'', rq2)"
    by blast
  have route: "get_route env0 8 = None" by (simp add: env0_def)
  from queued_writes_kept_without_route [OF idx_empty_fresh(1,2) two_chunks_unrouted_shape(2-6) _
      env0_shard[symmetric] idx_empty_fresh(3,4,5) route, of rq2 5 res_live quit_never] gcn
  obtain s1 s2 where "enqueue_chunks env0 5 two_chunks_unrouted idx_empty = Inr s1"
    "worker_process env0 quit_never 1 s1 = Inr s2"
    "handler_calls s2 = handler_calls idx_empty"
    "queued_writes s2 = queued_writes idx_empty
       + of_nat (Suc (length [(chunk_a\<lparr>route_hash := 8\<rparr>, res_live)]))"
    "map_of (req_res_map s2) 100 = None"
    unfolding two_chunks_unrouted_shape(1) by auto
  then show ?thesis
    by (intro exI[of _ s1] exI[of _ s2]) (simp add: idx_empty_def)
qed

section \<open>Quit during a scan\<close>

lemma worker_scan_quit:
  assumes dense: "chunks_dense e r num (store s)"
    and route: "get_route e (route_hash (req rr)) = Some rpath"
    and inreg: "map_of (req_res_map s) r = Some rr"
    and nq: "\<forall>j<m. \<not> quit j" and q: "quit m"
    and enough: "unat (next_chunk_index rr) + m < unat num"
  shows "\<exists>rr'. map_of (req_res_map (worker_scan e quit r rr s)) r = Some rr'
        \<and> next_chunk_index rr' = next_chunk_index rr + of_nat (Suc m)"
    and "queued_writes (worker_scan e quit r rr s) = queued_writes s - of_nat (Suc m)"
    and "map fst (handler_calls (worker_scan e quit r rr s)) =
           map fst (handler_calls s) @ map (\<lambda>i. chunk_key e r (of_nat i))
             [unat (next_chunk_index rr) ..< unat (next_chunk_index rr) + Suc m]"
    and "store (worker_scan e quit r rr s) = store s"
proof -
  let ?pre = "get_req_prefix_key e r"
  let ?it = "chunk_entries e r (next_chunk_index rr) num (store s)"
  let ?d0 = "drain_init rr s"
  let ?D = "drain e ?pre (Some rpath) (is_alive (res rr)) quit 0 ?it ?d0"
  have len: "m < length ?it" using enough by simp
  have nq0: "\<forall>j<m. \<not> quit (0 + j)" and q0: "quit (0 + m)" using nq q by simp_all
  have D: "?D = drain e ?pre (Some rpath) (is_alive (res rr)) (\<lambda>j. False) 0 (take (Suc m) ?it) ?d0"
    using drain_quit[OF chunk_entries_prefix len nq0 q0] .
  have pt: "\<forall>kv \<in> set (take (Suc m) ?it). starts_with (fst kv) ?pre"
    using chunk_entries_prefix[of e r "next_chunk_index rr" num "store s"] by (meson in_set_takeD)
  have lt: "length (take (Suc m) ?it) = Suc m" using enough by simp
  have mt: "map fst (take (Suc m) ?it) = map (\<lambda>i. chunk_key e r (of_nat i))
             [unat (next_chunk_index rr) ..< unat (next_chunk_index rr) + Suc m]"
  proof -
    have "unat (next_chunk_index rr) + Suc m \<le> unat num" using enough by simp
    then have "take (Suc m) [unat (next_chunk_index rr) ..< unat num] =
        [unat (next_chunk_index rr) ..< unat (next_chunk_index rr) + Suc m]"
      by (rule take_upt)
    then have "take (Suc m) (map (\<lambda>i. chunk_key e r (of_nat i)) [unat (next_chunk_index rr) ..< unat num])
        = map (\<lambda>i. chunk_key e r (of_nat i)) [unat (next_chunk_index rr) ..< unat (next_chunk_index rr) + Suc m]"
      by (simp only: take_map)
    then show ?thesis
      by (simp only: take_map[symmetric] map_fst_chunk_entries)
  qed
  have nqf: "\<forall>j. \<not> (\<lambda>j::nat. False) j" by simp
  from drain_all[where quit = "\<lambda>j. False", OF pt nqf, of e rpath "is_alive (res rr)" 0 ?d0]
  have f: "d_queued_writes ?D = d_queued_writes ?d0 - of_nat (Suc m)"
    "next_chunk_index (d_rec ?D) = next_chunk_index (d_rec ?d0) + of_nat (Suc m)"
    "map fst (d_handler_calls ?D) = map fst (d_handler_calls ?d0) @ map (\<lambda>i. chunk_key e r (of_nat i))
             [unat (next_chunk_index rr) ..< unat (next_chunk_index rr) + Suc m]"
    unfolding D lt mt by blast+
  have ws: "worker_scan e quit r rr s =
      s\<lparr>req_res_map := reg_update r (\<lambda>_. d_rec ?D) (req_res_map s),
        queued_writes := d_queued_writes ?D, messages := d_messages ?D,
        handler_calls := d_handler_calls ?D, write_log_index := d_write_log_index ?D\<rparr>"
    by (simp add: worker_scan_dense[OF dense] Let_def route)
  show "\<exists>rr'. map_of (req_res_map (worker_scan e quit r rr s)) r = Some rr'
        \<and> next_chunk_index rr' = next_chunk_index rr + of_nat (Suc m)"
    using f(2) by (simp add: ws map_of_reg_update inreg drain_init_def del: of_nat_Suc)
  show "queued_writes (worker_scan e quit r rr s) = queued_writes s - of_nat (Suc m)"
    using f(1) by (simp add: ws drain_init_def del: of_nat_Suc)
  show "map fst (handler_calls (worker_scan e quit r rr s)) =
           map fst (handler_calls s) @ map (\<lambda>i. chunk_key e r (of_nat i))
             [unat (next_chunk_index rr) ..< unat (next_chunk_index rr) + Suc m]"
    using f(3) by (simp add: ws drain_init_def del: of_nat_Suc upt_Suc)
  show "store (worker_scan e quit r rr s) = store s" by (simp add: ws)
qed

lemma two_enqueued:
  "\<exists>s1 rr. enqueue_chunks env0 5 two_chunks idx_empty = Inr s1
      \<and> chunks_dense env0 100 2 (store s1)
      \<and> map_of (req_res_map s1) 100 = Some rr \<and> next_chunk_index rr = 0
      \<and> get_route env0 (route_hash (req rr)) = Some \<lparr>handler = 1, async_res = False\<rparr>
      \<and> length (queues s1) = 2 \<and> queues s1 ! 1 = [100]
      \<and> queued_writes s1 = 2 \<and> handler_calls s1 = []"
proof -
  from env0_books(1) obtain rq2 where
    gcn: "get_collection_name env0 (req_books\<lparr>body := []\<rparr>) = Inr (''books'', rq2)" by blast
  have ql: "1 < length (queues idx_empty)" by (simp add: idx_empty_def)
  from enqueue_chunks_complete [OF idx_empty_fresh(1,2) two_chunks_shape(2-6) gcn
      env0_shard[symmetric] idx_empty_fresh(4) ql, of 5 res_live]
  obtain s1 rr where s1: "enqueue_chunks env0 5 two_chunks idx_empty = Inr s1"
    "chunks_dense env0 100 (of_nat (Suc (length [(chunk_a, res_live)]))) (store s1)"
    "map_of (req_res_map s1) 100 = Some rr" "next_chunk_index rr = 0" "route_hash (req rr) = 7"
    "queues s1 = (queues idx_empty)[1 := queues idx_empty ! 1 @ [100]]"
    "queued_writes s1 = queued_writes idx_empty + of_nat (Suc (length [(chunk_a, res_live)]))"
    "handler_calls s1 = handler_calls idx_empty"
    unfolding two_chunks_shape(1) by blast
  have "get_route env0 (route_hash (req rr)) = Some \<lparr>handler = 1, async_res = False\<rparr>"
    using s1(5) by (simp add: env0_def)
  with s1 show ?thesis
    by (intro exI[of _ s1] exI[of _ rr]) (simp add: idx_empty_def)
qed

text \<open>
  C2, as the code has it. When \<open>quit\<close> is first read true after \<open>m + 1\<close> chunks of a request
  with a route have been applied, and more chunks are stored, the worker leaves the loop:
  at that point \<open>next_chunk_index\<close> has advanced by \<open>m + 1\<close>, \<open>queued_writes\<close> has gone down
  by \<open>m + 1\<close>, exactly the chunks from the old \<open>next_chunk_index\<close> on have been handed to the
  handler, in order, and the store is untouched. Lines 188-196 then run as after a full
  scan: every chunk key of the request, applied or not, is deleted and the record is
  erased.
\<close>

theorem quit_stops_scan_then_erases:
  assumes i: "i < length (queues s)" and front: "queues s ! i = r # rest"
    and inreg: "map_of (req_res_map s) r = Some rr"
    and dense: "chunks_dense e r num (store s)"
    and route: "get_route e (route_hash (req rr)) = Some rpath"
    and nq: "\<forall>j<m. \<not> quit j" and q: "quit m"
    and enough: "unat (next_chunk_index rr) + m < unat num"
  shows "(\<exists>rr'. map_of (req_res_map (worker_scan e quit r rr (s\<lparr>queues := (queues s)[i := rest]\<rparr>))) r = Some rr'
            \<and> next_chunk_index rr' = next_chunk_index rr + of_nat (Suc m))
       \<and> queued_writes (worker_scan e quit r rr (s\<lparr>queues := (queues s)[i := rest]\<rparr>))
           = queued_writes s - of_nat (Suc m)
       \<and> map fst (handler_calls (worker_scan e quit r rr (s\<lparr>queues := (queues s)[i := rest]\<rparr>))) =
           map fst (handler_calls s) @ map (\<lambda>i. chunk_key e r (of_nat i))
             [unat (next_chunk_index rr) ..< unat (next_chunk_index rr) + Suc m]
       \<and> store (worker_scan e quit r rr (s\<lparr>queues := (queues s)[i := rest]\<rparr>)) = store s
       \<and> (\<exists>s'. worker_process e quit i s = Inr s'
             \<and> queued_writes s' = queued_writes s - of_nat (Suc m)
             \<and> length (handler_calls s') = length (handler_calls s) + Suc m
             \<and> map_of (req_res_map s') r = None
             \<and> (\<forall>c. chunk_key e r c \<notin> fst ` set (store s')))"
proof -
  let ?s1 = "s\<lparr>queues := (queues s)[i := rest]\<rparr>"
  let ?sl = "worker_scan e quit r rr ?s1"
  have dense1: "chunks_dense e r num (store ?s1)" using dense by simp
  have inreg1: "map_of (req_res_map ?s1) r = Some rr" using inreg by simp
  note ws = worker_scan_quit[OF dense1 route inreg1 nq q enough]
  have wp: "worker_process e quit i s = Inr (worker_finish e r ?sl)"
    using worker_process_front[OF i front inreg] .
  have "length (map fst (handler_calls ?sl)) = length (handler_calls s) + Suc m"
    unfolding ws(3) by (simp del: upt_Suc)
  then have hl: "length (handler_calls ?sl) = length (handler_calls s) + Suc m" by simp
  have fin: "\<exists>s'. worker_process e quit i s = Inr s'
             \<and> queued_writes s' = queued_writes s - of_nat (Suc m)
             \<and> length (handler_calls s') = length (handler_calls s) + Suc m
             \<and> map_of (req_res_map s') r = None
             \<and> (\<forall>c. chunk_key e r c \<notin> fst ` set (store s'))"
    using wp ws(2) hl worker_finish_gone[of e r ?sl]
    by (simp add: worker_finish_frame del: of_nat_Suc)
  from ws fin show ?thesis by (simp del: of_nat_Suc upt_Suc)
qed

theorem quit_stops_scan_then_erases_witness:
  "\<exists>s1 rr s'. enqueue_chunks env0 5 two_chunks idx_empty = Inr s1
      \<and> map_of (req_res_map s1) 100 = Some rr
      \<and> quit_always 0
      \<and> store (worker_scan env0 quit_always 100 rr (s1\<lparr>queues := (queues s1)[1 := []]\<rparr>)) = store s1
      \<and> worker_process env0 quit_always 1 s1 = Inr s'
      \<and> queued_writes s' = queued_writes s1 - 1
      \<and> length (handler_calls s') = length (handler_calls s1) + 1
      \<and> map_of (req_res_map s') 100 = None
      \<and> chunk_key env0 100 1 \<notin> fst ` set (store s')"
proof -
  from two_enqueued obtain s1 rr where s1: "enqueue_chunks env0 5 two_chunks idx_empty = Inr s1"
    "chunks_dense env0 100 2 (store s1)" "map_of (req_res_map s1) 100 = Some rr"
    "next_chunk_index rr = 0"
    "get_route env0 (route_hash (req rr)) = Some \<lparr>handler = 1, async_res = False\<rparr>"
    "length (queues s1) = 2" "queues s1 ! 1 = [100]" by blast
  have i: "1 < length (queues s1)" using s1(6) by simp
  have nq: "\<forall>j<0. \<not> quit_always j" by simp
  have q: "quit_always 0" by (simp add: quit_always_def)
  have enough: "unat (next_chunk_index rr) + 0 < unat (2 :: 32 word)" using s1(4) by simp
  from quit_stops_scan_then_erases [OF i s1(7) s1(3) s1(2) s1(5) nq q enough]
  obtain s' where "store (worker_scan env0 quit_always 100 rr (s1\<lparr>queues := (queues s1)[1 := []]\<rparr>)) = store s1"
    "worker_process env0 quit_always 1 s1 = Inr s'"
    "queued_writes s' = queued_writes s1 - of_nat (Suc 0)"
    "length (handler_calls s') = length (handler_calls s1) + Suc 0"
    "map_of (req_res_map s') 100 = None"
    "\<forall>c. chunk_key env0 100 c \<notin> fst ` set (store s')" by blast
  with s1(1,3) q show ?thesis
    by (intro exI[of _ s1] exI[of _ rr] exI[of _ s']) simp
qed

text \<open>
  C2, as the spec has it, fails: two chunks are enqueued, \<open>quit\<close> is read true after the
  first has been applied; the second chunk, which was stored, is deleted with the first,
  and the record is erased.
\<close>

theorem quit_preserves_progress_counterexample:
  "enqueue_chunks env0 5 two_chunks idx_empty = Inr idx_two_enqueued
   \<and> chunk_key env0 100 1 \<in> fst ` set (store idx_two_enqueued)
   \<and> quit_always 0
   \<and> worker_process env0 quit_always 1 idx_two_enqueued = Inr idx_after_quit
   \<and> length (handler_calls idx_after_quit) = 1
   \<and> map_of (req_res_map idx_after_quit) 100 = None
   \<and> chunk_key env0 100 1 \<notin> fst ` set (store idx_after_quit)"
proof -
  from two_enqueued obtain s1 rr where s1: "enqueue_chunks env0 5 two_chunks idx_empty = Inr s1"
    "chunks_dense env0 100 2 (store s1)" "map_of (req_res_map s1) 100 = Some rr"
    "next_chunk_index rr = 0"
    "get_route env0 (route_hash (req rr)) = Some \<lparr>handler = 1, async_res = False\<rparr>"
    "length (queues s1) = 2" "queues s1 ! 1 = [100]" "handler_calls s1 = []" by blast
  have e1: "idx_two_enqueued = s1" by (simp add: idx_two_enqueued_def s1(1))
  have present: "chunk_key env0 100 1 \<in> fst ` set (store s1)"
    using s1(2) unfolding chunks_dense_def by simp
  let ?s1' = "s1\<lparr>queues := (queues s1)[1 := []]\<rparr>"
  let ?sl = "worker_scan env0 quit_always 100 rr ?s1'"
  have i: "1 < length (queues s1)" using s1(6) by simp
  have wp: "worker_process env0 quit_always 1 s1 = Inr (worker_finish env0 100 ?sl)"
    using worker_process_front[OF i s1(7) s1(3)] .
  have e2: "idx_after_quit = worker_finish env0 100 ?sl"
    by (simp only: idx_after_quit_def e1 wp sum.sel)
  have dense1: "chunks_dense env0 100 2 (store ?s1')" using s1(2) by simp
  have inreg1: "map_of (req_res_map ?s1') 100 = Some rr" using s1(3) by simp
  have nq: "\<forall>j<0. \<not> quit_always j" by simp
  have q: "quit_always 0" by (simp add: quit_always_def)
  have enough: "unat (next_chunk_index rr) + 0 < unat (2 :: 32 word)" using s1(4) by simp
  have "map fst (handler_calls ?sl) = map fst (handler_calls ?s1')
      @ map (\<lambda>i. chunk_key env0 100 (of_nat i)) [unat (next_chunk_index rr) ..< unat (next_chunk_index rr) + Suc 0]"
    by (rule worker_scan_quit(3)[OF dense1 s1(5) inreg1 nq q enough])
  then have "length (map fst (handler_calls ?sl)) = 1" using s1(8) by simp
  then have hl: "length (handler_calls (worker_finish env0 100 ?sl)) = 1"
    by (simp add: worker_finish_frame)
  from s1(1) present q wp hl worker_finish_gone[of env0 100 ?sl]
  show ?thesis unfolding e1 e2 by simp
qed

section \<open>Order of the chunks\<close>

lemma enqueue_core_persists:
  assumes "enqueue_core e wall_now rq rs s0 = Inr (rq', s')"
  shows "(chunk_key e (start_ts rq)
            (case map_of (req_res_map s0) (start_ts rq) of None \<Rightarrow> 0 | Some x \<Rightarrow> num_chunks x),
          to_json rq) \<in> set (store s')"
  using assms
  by (auto simp: enqueue_core_def Let_def store_insert_def chunk_key_def
      split: sum.splits if_splits option.splits)

text \<open>
  C5. The key of a chunk is the prefix, the request id in 8 big-endian bytes, an underscore
  and the sequence number in 4 big-endian bytes; \<^verbatim>\<open>enqueue\<close> stores each chunk under the key
  of its sequence number; keys of one request are ordered as their sequence numbers; and
  for a store that holds the chunks \<open>0, ..., num - 1\<close> of the request, the scan from the key
  of \<open>nxt\<close>, cut where the prefix ends, yields the chunks \<open>nxt, ..., num - 1\<close> in this order,
  which is the order in which a worker with a route and no quit hands them to the handler.
\<close>

theorem chunk_keys_ordered_scan:
  assumes dense: "chunks_dense e r num (store s)"
    and route: "get_route e (route_hash (req rr)) = Some rpath"
    and nq: "\<forall>j. \<not> quit j"
  shows "chunk_key e r c = RAFT_REQ_LOG_PREFIX e @ be_bytes 8 (unat r) @ ''_'' @ be_bytes 4 (unat c)
       \<and> (enqueue_core e wall_now rq rs s0 = Inr (rq', s') \<longrightarrow>
            (chunk_key e (start_ts rq)
               (case map_of (req_res_map s0) (start_ts rq) of None \<Rightarrow> 0 | Some x \<Rightarrow> num_chunks x),
             to_json rq) \<in> set (store s'))
       \<and> (\<forall>i j. i < j \<longrightarrow> chunk_key e r i < chunk_key e r j)
       \<and> takeWhile (\<lambda>kv. starts_with (fst kv) (get_req_prefix_key e r))
            (store_scan (chunk_key e r nxt) (store s))
           = map (\<lambda>i. (chunk_key e r (of_nat i), the (map_of (store s) (chunk_key e r (of_nat i)))))
               [unat nxt ..< unat num]
       \<and> map fst (handler_calls (worker_scan e quit r rr s))
           = map fst (handler_calls s)
             @ map (\<lambda>i. chunk_key e r (of_nat i)) [unat (next_chunk_index rr) ..< unat num]"
proof -
  have 1: "chunk_key e r c = RAFT_REQ_LOG_PREFIX e @ be_bytes 8 (unat r) @ ''_'' @ be_bytes 4 (unat c)"
    by (simp add: chunk_key_def get_req_prefix_key_def serialize_uint64_t_def serialize_uint32_t_def)
  have 2: "enqueue_core e wall_now rq rs s0 = Inr (rq', s') \<longrightarrow>
            (chunk_key e (start_ts rq)
               (case map_of (req_res_map s0) (start_ts rq) of None \<Rightarrow> 0 | Some x \<Rightarrow> num_chunks x),
             to_json rq) \<in> set (store s')"
    using enqueue_core_persists by blast
  have 3: "\<forall>i j. i < j \<longrightarrow> chunk_key e r i < chunk_key e r j"
    using chunk_key_mono by blast
  have 4: "takeWhile (\<lambda>kv. starts_with (fst kv) (get_req_prefix_key e r))
            (store_scan (chunk_key e r nxt) (store s))
           = map (\<lambda>i. (chunk_key e r (of_nat i), the (map_of (store s) (chunk_key e r (of_nat i)))))
               [unat nxt ..< unat num]"
    using store_scan_chunks[OF dense, of nxt] by (simp add: chunk_entries_def)
  note 5 = worker_scan_route_all(2)[OF dense route nq]
  from 1 2 3 4 5 show ?thesis by blast
qed

theorem chunk_keys_ordered_scan_witness:
  "\<exists>s1 rr rq' s'. enqueue_chunks env0 5 two_chunks idx_empty = Inr s1
      \<and> map_of (req_res_map s1) 100 = Some rr
      \<and> enqueue_core env0 5 chunk_a res_live idx_empty = Inr (rq', s')
      \<and> (chunk_key env0 100 0, to_json chunk_a) \<in> set (store s')
      \<and> chunk_key env0 100 0 < chunk_key env0 100 1
      \<and> map fst (takeWhile (\<lambda>kv. starts_with (fst kv) (get_req_prefix_key env0 100))
            (store_scan (chunk_key env0 100 0) (store s1)))
           = [chunk_key env0 100 0, chunk_key env0 100 1]
      \<and> map fst (handler_calls (worker_scan env0 quit_never 100 rr s1))
           = [chunk_key env0 100 0, chunk_key env0 100 1]"
proof -
  from two_enqueued obtain s1 rr where s1: "enqueue_chunks env0 5 two_chunks idx_empty = Inr s1"
    "chunks_dense env0 100 2 (store s1)" "map_of (req_res_map s1) 100 = Some rr"
    "next_chunk_index rr = 0"
    "get_route env0 (route_hash (req rr)) = Some \<lparr>handler = 1, async_res = False\<rparr>"
    "handler_calls s1 = []" by blast
  have "\<exists>r. enqueue_core env0 5 chunk_a res_live idx_empty = Inr r"
    by (simp add: enqueue_core_def Let_def chunk_a_def req_books_def idx_empty_def)
  then obtain rq' s' where core: "enqueue_core env0 5 chunk_a res_live idx_empty = Inr (rq', s')"
    by force
  have nq: "\<forall>j. \<not> quit_never j" by (simp add: quit_never_def)
  have up: "[0 ..< unat (2 :: 32 word)] = [0, 1]" by (simp add: upt_rec)
  note th = chunk_keys_ordered_scan [OF s1(2) s1(5) nq, of 0 5 chunk_a res_live idx_empty rq' s' 0]
  have st: "start_ts chunk_a = 100" by (simp add: chunk_a_def req_books_def)
  have "(chunk_key env0 (start_ts chunk_a)
           (case map_of (req_res_map idx_empty) (start_ts chunk_a) of None \<Rightarrow> 0 | Some x \<Rightarrow> num_chunks x),
         to_json chunk_a) \<in> set (store s')"
    using th core by blast
  then have a: "(chunk_key env0 100 0, to_json chunk_a) \<in> set (store s')"
    by (simp only: st idx_empty_fresh(1) option.case)
  have "\<forall>i j. i < j \<longrightarrow> chunk_key env0 100 i < chunk_key env0 100 j"
    using th by blast
  then have b: "chunk_key env0 100 0 < chunk_key env0 100 1" by simp
  have "takeWhile (\<lambda>kv. starts_with (fst kv) (get_req_prefix_key env0 100))
            (store_scan (chunk_key env0 100 0) (store s1))
           = map (\<lambda>i. (chunk_key env0 100 (of_nat i), the (map_of (store s1) (chunk_key env0 100 (of_nat i)))))
               [unat (0 :: 32 word) ..< unat (2 :: 32 word)]"
    using th by blast
  then have c: "map fst (takeWhile (\<lambda>kv. starts_with (fst kv) (get_req_prefix_key env0 100))
            (store_scan (chunk_key env0 100 0) (store s1)))
           = [chunk_key env0 100 0, chunk_key env0 100 1]"
    by (simp add: upt_rec)
  have "map fst (handler_calls (worker_scan env0 quit_never 100 rr s1))
           = map fst (handler_calls s1)
             @ map (\<lambda>i. chunk_key env0 100 (of_nat i)) [unat (next_chunk_index rr) ..< unat (2 :: 32 word)]"
    using th by blast
  then have d: "map fst (handler_calls (worker_scan env0 quit_never 100 rr s1))
           = [chunk_key env0 100 0, chunk_key env0 100 1]"
    using s1(4,6) by (simp add: upt_rec)
  show ?thesis
    using s1(1,3) core a b c d
    by (intro exI[of _ s1] exI[of _ rr] exI[of _ rq'] exI[of _ s'] conjI) assumption+
qed

section \<open>Decimal request ids\<close>

lemma of_char_digit_char: "d < 10 \<Longrightarrow> (of_char (digit_char d) :: nat) = 48 + d"
  by (simp add: digit_char_def)

lemma digit_char_props:
  "d < 10 \<Longrightarrow> is_digit (digit_char d) \<and> digit_val (digit_char d) = d"
  by (simp add: is_digit_def digit_val_def of_char_digit_char)

lemma digits10_all_digits: "\<forall>c \<in> set (digits10 n). is_digit c"
proof (induction n rule: digits10.induct)
  case (1 n)
  then show ?case
    by (subst digits10.simps) (auto simp: digit_char_props simp del: digits10.simps)
qed

lemma digits10_value: "foldl (\<lambda>a c. 10 * a + digit_val c) 0 (digits10 n) = n"
proof (induction n rule: digits10.induct)
  case (1 n)
  show ?case
  proof (cases "n < 10")
    case True
    then show ?thesis by (subst digits10.simps) (simp add: digit_char_props del: digits10.simps)
  next
    case False
    have "n mod 10 < 10" by simp
    with False 1 show ?thesis
      by (subst digits10.simps) (simp add: digit_char_props del: digits10.simps)
  qed
qed

lemma digits10_hd: "digits10 n \<noteq> [] \<and> is_digit (hd (digits10 n))"
proof (induction n rule: digits10.induct)
  case (1 n)
  show ?case
  proof (cases "n < 10")
    case True
    then show ?thesis by (subst (1 2) digits10.simps) (simp add: digit_char_props del: digits10.simps)
  next
    case False
    with 1 show ?thesis
      by (subst (1 2) digits10.simps) (simp add: del: digits10.simps)
  qed
qed

lemma is_digit_not_space: "is_digit c \<Longrightarrow> \<not> is_space c \<and> c \<noteq> CHR ''-'' \<and> c \<noteq> CHR ''+''"
proof -
  assume d: "is_digit c"
  have "(of_char CHR ''-'' :: nat) = 45" "(of_char CHR ''+'' :: nat) = 43" by simp_all
  with d show ?thesis by (auto simp: is_digit_def is_space_def)
qed

lemma stoull_to_string: "stoull (to_string k) = Inr k"
proof -
  let ?ds = "digits10 (unat k)"
  from digits10_hd[of "unat k"] obtain c cs where ds: "?ds = c # cs" "is_digit c"
    by (cases ?ds) auto
  from is_digit_not_space[OF ds(2)] have c: "\<not> is_space c" "c \<noteq> CHR ''-''" "c \<noteq> CHR ''+''" by simp_all
  have dw: "dropWhile is_space ?ds = ?ds" using ds c by simp
  have tw: "takeWhile is_digit ?ds = ?ds" using digits10_all_digits[of "unat k"] by (simp add: takeWhile_eq_all_conv)
  have v: "foldl (\<lambda>a c. 10 * a + digit_val c) 0 ?ds = unat k" by (rule digits10_value)
  have "unat k < 2 ^ 64" using unsigned_less[of k] by simp
  then have lt: "\<not> 2 ^ 64 \<le> unat k" by simp
  have hd: "hd ?ds \<noteq> CHR ''-''" "hd ?ds \<noteq> CHR ''+''" "?ds \<noteq> []" using ds c by simp_all
  show ?thesis
    unfolding stoull_def to_string_def Let_def dw using hd lt
    by (simp only: tw v if_False simp_thms) simp
qed

lemma to_string_inj: "to_string a = to_string b \<Longrightarrow> a = b"
  by (metis stoull_to_string sum.inject(2))

section \<open>Snapshot round trip\<close>

lemma load_to_json_new: "load_from_json (to_json rq) http_req_new = rq\<lparr>proceed_req := False\<rparr>"
  by (simp add: load_from_json_def to_json_def http_req_new_def)

lemma restore_record_to_json:
  "restore_record (req_res_to_json rr) =
     \<lparr>prev_req_body = prev_req_body rr, req = (req rr)\<lparr>proceed_req := False\<rparr>,
      res = http_res_new, batch_begin_ts = batch_begin_ts rr, num_chunks = num_chunks rr,
      next_chunk_index = next_chunk_index rr, is_complete = is_complete rr\<rparr>"
  by (simp add: restore_record_def req_res_to_json_def load_to_json_new)

lemma get_collection_name_result:
  "get_collection_name e rq = Inr cr \<Longrightarrow>
     snd cr = rq\<lparr>params := (params rq)(''collection'' \<mapsto> fst cr)\<rparr>"
  by (auto simp: get_collection_name_def Let_def split: option.splits if_splits)

lemma get_collection_name_proceed:
  "get_collection_name e (rq\<lparr>proceed_req := b\<rparr>) =
     map_sum id (\<lambda>cr. (fst cr, (snd cr)\<lparr>proceed_req := b\<rparr>)) (get_collection_name e rq)"
  by (auto simp: get_collection_name_def Let_def split: option.splits)

lemma name_lookup_safe_Inr:
  "name_lookup_safe e rr \<Longrightarrow> is_complete rr \<Longrightarrow> \<exists>cr. get_collection_name e (req rr) = Inr cr"
  by (cases "params (req rr) ''collection''")
     (auto simp: name_lookup_safe_def get_collection_name_def Let_def split: option.splits)

lemma json_set_new:
  "k \<notin> fst ` set obj \<Longrightarrow>
     set (json_set k v obj) = insert (k, v) (set obj)
     \<and> (distinct (map fst obj) \<longrightarrow> distinct (map fst (json_set k v obj)))"
  by (simp add: json_set_def set_insort_key distinct_map_insort_key)

lemma serialize_fold:
  assumes "distinct (map fst reg)" and "distinct (map fst obj)"
    and "\<forall>kv \<in> set reg. to_string (fst kv) \<notin> fst ` set obj"
  shows "set (foldl (\<lambda>obj kv. json_set (to_string (fst kv)) (req_res_to_json (snd kv)) obj) obj reg)
           = set obj \<union> ser_entry ` set reg
       \<and> distinct (map fst (foldl (\<lambda>obj kv. json_set (to_string (fst kv)) (req_res_to_json (snd kv)) obj) obj reg))"
  using assms
proof (induction reg arbitrary: obj)
  case Nil
  then show ?case by simp
next
  case (Cons x reg)
  let ?obj' = "json_set (to_string (fst x)) (req_res_to_json (snd x)) obj"
  have new: "to_string (fst x) \<notin> fst ` set obj" using Cons.prems(3) by simp
  from json_set_new[OF new, of "req_res_to_json (snd x)"] Cons.prems(2)
  have s': "set ?obj' = insert (ser_entry x) (set obj)" and d': "distinct (map fst ?obj')"
    by (simp_all add: ser_entry_def)
  have dr: "distinct (map fst reg)" using Cons.prems(1) by simp
  have fresh: "\<forall>kv \<in> set reg. to_string (fst kv) \<notin> fst ` set ?obj'"
  proof
    fix kv assume kv: "kv \<in> set reg"
    have "fst x \<notin> fst ` set reg" using Cons.prems(1) by simp
    then have "fst kv \<noteq> fst x" using kv by (metis image_eqI)
    then have "to_string (fst kv) \<noteq> to_string (fst x)" using to_string_inj by blast
    moreover have "to_string (fst kv) \<notin> fst ` set obj" using Cons.prems(3) kv by simp
    ultimately show "to_string (fst kv) \<notin> fst ` set ?obj'"
      by (auto simp: s' ser_entry_def)
  qed
  from Cons.IH[OF dr d' fresh] show ?case by (simp add: s')
qed

lemma serialize_state_items:
  assumes "distinct (map fst (req_res_map s))"
  shows "set (js_req_res_map (serialize_state s)) = ser_entry ` set (req_res_map s)"
    and "distinct (map fst (js_req_res_map (serialize_state s)))"
  using serialize_fold[OF assms, of "[]"] by (simp_all add: serialize_state_def)

lemma list_in_image:
  "set ys \<subseteq> f ` A \<Longrightarrow> \<exists>xs. ys = map f xs \<and> set xs \<subseteq> A"
proof (induction ys)
  case Nil
  then show ?case by simp
next
  case (Cons y ys)
  then obtain xs where xs: "ys = map f xs" "set xs \<subseteq> A" by auto
  from Cons.prems obtain x where x: "x \<in> A" "y = f x" by auto
  show ?case by (rule exI[of _ "x # xs"]) (simp add: xs x)
qed

lemma ser_entry_key_inj: "fst (ser_entry a) = fst (ser_entry b) \<Longrightarrow> fst a = fst b"
  by (simp add: ser_entry_def to_string_inj)

lemma serialize_state_perm:
  assumes wf: "registry_wf (req_res_map s)"
  shows "\<exists>reg'. js_req_res_map (serialize_state s) = map ser_entry reg'
      \<and> set reg' = set (req_res_map s) \<and> distinct (map fst reg')"
proof -
  have d: "distinct (map fst (req_res_map s))" using wf by (simp add: registry_wf_def)
  note it = serialize_state_items[OF d]
  from list_in_image[of "js_req_res_map (serialize_state s)" ser_entry "set (req_res_map s)"] it(1)
  obtain reg' where reg': "js_req_res_map (serialize_state s) = map ser_entry reg'"
    "set reg' \<subseteq> set (req_res_map s)" by auto
  have dk: "distinct (map fst reg')"
  proof -
    have "distinct (map (fst \<circ> ser_entry) reg')" using it(2) reg'(1) by simp
    then have "distinct (map (to_string \<circ> fst) reg')" by (simp add: ser_entry_def o_def)
    then have "distinct (map to_string (map fst reg'))" by simp
    then show ?thesis using distinct_map[of to_string "map fst reg'"] by blast
  qed
  have "set (req_res_map s) \<subseteq> set reg'"
  proof
    fix x assume x: "x \<in> set (req_res_map s)"
    then have "ser_entry x \<in> ser_entry ` set reg'" using it(1) reg'(1) by (metis image_eqI set_map)
    then obtain y where y: "y \<in> set reg'" "ser_entry x = ser_entry y" by auto
    then have k: "fst x = fst y" using ser_entry_key_inj by metis
    have "y \<in> set (req_res_map s)" using y(1) reg'(2) by auto
    with x k d have "x = y" by (metis eq_key_imp_eq_value prod.collapse)
    with y(1) show "x \<in> set reg'" by simp
  qed
  with reg' dk show ?thesis by blast
qed

lemma sort_queues_length [simp]: "length (sort_queues ids qs) = length qs"
  by (induction ids arbitrary: qs) simp_all

lemma sort_queues_nth:
  "\<forall>i \<in> set ids. i < length qs \<Longrightarrow> j < length qs \<Longrightarrow>
     sort_queues ids qs ! j = (if j \<in> set ids then sort (qs ! j) else qs ! j)"
proof (induction ids arbitrary: qs)
  case Nil
  then show ?case by simp
next
  case (Cons i ids)
  have "\<forall>a \<in> set ids. a < length (qs[i := sort (qs ! i)])" using Cons.prems(1) by simp
  moreover have "j < length (qs[i := sort (qs ! i)])" using Cons.prems(2) by simp
  ultimately have "sort_queues ids (qs[i := sort (qs ! i)]) ! j =
      (if j \<in> set ids then sort (qs[i := sort (qs ! i)] ! j) else qs[i := sort (qs ! i)] ! j)"
    by (rule Cons.IH)
  then show ?case using Cons.prems
    by (auto simp: nth_list_update sorted_sort_id)
qed

lemma coll_name_of_Inr: "get_collection_name e rq = Inr cr \<Longrightarrow> coll_name_of e rq = fst cr"
  by (simp add: coll_name_of_def)

lemma load_entries_step_incomplete:
  assumes "\<not> is_complete (snd x)"
  shows "load_entries e (ser_entry x # it) (s0, q0) =
         load_entries e it
           (s0\<lparr>req_res_map := reg_emplace (fst x) (restored e (snd x)) (req_res_map s0)\<rparr>, q0)"
  using assms
  by (simp add: ser_entry_def stoull_to_string restore_record_to_json restored_def Let_def)

lemma load_entries_step_complete:
  assumes c: "is_complete (snd x)" and safe: "name_lookup_safe e (snd x)"
    and nt: "0 < num_threads e" and len: "length (queues s0) = num_threads e"
  shows "load_entries e (ser_entry x # it) (s0, q0) =
         load_entries e it
           (s0\<lparr>req_res_map := reg_emplace (fst x) (restored e (snd x)) (req_res_map s0),
               queues := (queues s0)[shard_of e (req (snd x)) :=
                  queues s0 ! shard_of e (req (snd x)) @ [start_ts (req (snd x))]]\<rparr>,
            q0 @ [shard_of e (req (snd x))])"
proof -
  from name_lookup_safe_Inr[OF safe c] obtain cr where cr: "get_collection_name e (req (snd x)) = Inr cr"
    by blast
  have name: "coll_name_of e (req (snd x)) = fst cr" using cr by (rule coll_name_of_Inr)
  have sh: "unat (hash_wy e (fst cr)) mod num_threads e = shard_of e (req (snd x))"
    by (simp add: shard_of_def name)
  have lt: "shard_of e (req (snd x)) < length (queues s0)"
    using nt len by (simp add: shard_of_def)
  have rq: "(snd cr)\<lparr>proceed_req := False\<rparr> =
      (req (snd x))\<lparr>params := (params (req (snd x)))(''collection'' \<mapsto> fst cr), proceed_req := False\<rparr>"
    using get_collection_name_result[OF cr] by simp
  have st: "start_ts (snd cr) = start_ts (req (snd x))"
    using get_collection_name_result[OF cr] by simp
  show ?thesis
    using c nt lt
    by (simp add: ser_entry_def stoull_to_string restore_record_to_json Let_def
        get_collection_name_proceed cr sh rq st restored_def name)
qed

lemma load_entries_ser:
  assumes "\<forall>kv \<in> set reg. name_lookup_safe e (snd kv)"
    and "0 < num_threads e" and "length (queues s0) = num_threads e"
  shows "\<exists>s'. load_entries e (map ser_entry reg) (s0, q0) =
           Inr (s', q0 @ map (\<lambda>kv. shard_of e (req (snd kv))) (filter (\<lambda>kv. is_complete (snd kv)) reg))
     \<and> req_res_map s' = foldl (\<lambda>r kv. reg_emplace (fst kv) (restored e (snd kv)) r) (req_res_map s0) reg
     \<and> length (queues s') = num_threads e
     \<and> (\<forall>j < num_threads e. queues s' ! j = queues s0 ! j @ pushed e j reg)
     \<and> queued_writes s' = queued_writes s0"
  using assms
proof (induction reg arbitrary: s0 q0)
  case Nil
  then show ?case by (simp add: pushed_def)
next
  case (Cons x reg)
  have safe: "\<forall>kv \<in> set reg. name_lookup_safe e (snd kv)" using Cons.prems(1) by simp
  show ?case
  proof (cases "is_complete (snd x)")
    case False
    let ?s1 = "s0\<lparr>req_res_map := reg_emplace (fst x) (restored e (snd x)) (req_res_map s0)\<rparr>"
    have len1: "length (queues ?s1) = num_threads e" using Cons.prems(3) by simp
    from Cons.IH[OF safe Cons.prems(2) len1, of q0] False
    show ?thesis
      by (simp add: load_entries_step_incomplete pushed_def del: load_entries.simps)
  next
    case True
    let ?i = "shard_of e (req (snd x))"
    let ?s1 = "s0\<lparr>req_res_map := reg_emplace (fst x) (restored e (snd x)) (req_res_map s0),
               queues := (queues s0)[?i := queues s0 ! ?i @ [start_ts (req (snd x))]]\<rparr>"
    have sx: "name_lookup_safe e (snd x)" using Cons.prems(1) by simp
    have len1: "length (queues ?s1) = num_threads e" using Cons.prems(3) by simp
    have step: "load_entries e (map ser_entry (x # reg)) (s0, q0) =
        load_entries e (map ser_entry reg) (?s1, q0 @ [?i])"
      using load_entries_step_complete[OF True sx Cons.prems(2,3)] by simp
    from Cons.IH[OF safe Cons.prems(2) len1, of "q0 @ [?i]"] obtain s' where
      s': "load_entries e (map ser_entry reg) (?s1, q0 @ [?i]) =
            Inr (s', (q0 @ [?i]) @ map (\<lambda>kv. shard_of e (req (snd kv))) (filter (\<lambda>kv. is_complete (snd kv)) reg))"
        "req_res_map s' = foldl (\<lambda>r kv. reg_emplace (fst kv) (restored e (snd kv)) r) (req_res_map ?s1) reg"
        "length (queues s') = num_threads e"
        "\<forall>j < num_threads e. queues s' ! j = queues ?s1 ! j @ pushed e j reg"
        "queued_writes s' = queued_writes ?s1" by blast
    have q: "queues s' ! j = queues s0 ! j @ pushed e j (x # reg)" if "j < num_threads e" for j
      using s'(4) that True Cons.prems(3) by (simp add: pushed_def nth_list_update)
    show ?thesis
      using s'(1,2,3,5) q True unfolding step by (intro exI[of _ s']) simp
  qed
qed

lemma foldl_reg_emplace:
  assumes "distinct (map fst reg)" and "\<forall>kv \<in> set reg. fst kv \<notin> fst ` set r0"
  shows "foldl (\<lambda>r kv. reg_emplace (fst kv) (f (snd kv)) r) r0 reg = r0 @ map (\<lambda>kv. (fst kv, f (snd kv))) reg"
  using assms
proof (induction reg arbitrary: r0)
  case Nil
  then show ?case by simp
next
  case (Cons x reg)
  have none: "map_of r0 (fst x) = None" using Cons.prems(2) by (simp add: map_of_eq_None_iff)
  have e: "reg_emplace (fst x) (f (snd x)) r0 = r0 @ [(fst x, f (snd x))]"
    by (simp add: reg_emplace_def none)
  have d: "distinct (map fst reg)" using Cons.prems(1) by simp
  have fr: "\<forall>kv \<in> set reg. fst kv \<notin> fst ` set (r0 @ [(fst x, f (snd x))])"
  proof
    fix kv assume kv: "kv \<in> set reg"
    have "fst x \<notin> fst ` set reg" using Cons.prems(1) by simp
    then have "fst kv \<noteq> fst x" using kv by (metis image_eqI)
    moreover have "fst kv \<notin> fst ` set r0" using Cons.prems(2) kv by simp
    ultimately show "fst kv \<notin> fst ` set (r0 @ [(fst x, f (snd x))])" by simp
  qed
  from Cons.IH[OF d fr] show ?case by (simp add: e)
qed

lemma pushed_keys:
  assumes "\<forall>kv \<in> set reg. start_ts (req (snd kv)) = fst kv"
  shows "pushed e j reg = map fst (filter (\<lambda>kv. is_complete (snd kv) \<and> shard_of e (req (snd kv)) = j) reg)"
  using assms by (simp add: pushed_def)

lemma load_state_ser:
  assumes wf: "registry_wf (req_res_map s)"
    and fresh: "req_res_map s0 = []" "queues s0 = replicate (num_threads e) []"
    and nt: "0 < num_threads e"
    and safe: "\<forall>kv \<in> set (req_res_map s). name_lookup_safe e (snd kv)"
  shows "\<exists>s'. load_state e (serialize_state s) s0 = Inr s'
     \<and> queued_writes s' = queued_writes s
     \<and> fst ` set (req_res_map s') = fst ` set (req_res_map s)
     \<and> (\<forall>kv \<in> set (req_res_map s). map_of (req_res_map s') (fst kv) = Some (restored e (snd kv)))
     \<and> length (queues s') = num_threads e
     \<and> (\<forall>j < num_threads e. sorted (queues s' ! j) \<and> distinct (queues s' ! j)
           \<and> set (queues s' ! j) =
               {k. \<exists>rr. (k, rr) \<in> set (req_res_map s) \<and> is_complete rr \<and> shard_of e (req rr) = j})"
proof -
  from serialize_state_perm[OF wf] obtain reg' where
    items: "js_req_res_map (serialize_state s) = map ser_entry reg'"
    and seteq: "set reg' = set (req_res_map s)" and dk: "distinct (map fst reg')" by blast
  have safe': "\<forall>kv \<in> set reg'. name_lookup_safe e (snd kv)" using safe seteq by simp
  have key': "\<forall>kv \<in> set reg'. start_ts (req (snd kv)) = fst kv"
    using wf seteq by (auto simp: registry_wf_def list_all_iff)
  let ?s0 = "s0\<lparr>queued_writes := word_of_int (js_queued_writes (serialize_state s))\<rparr>"
  let ?qids = "map (\<lambda>kv. shard_of e (req (snd kv))) (filter (\<lambda>kv. is_complete (snd kv)) reg')"
  have len0: "length (queues ?s0) = num_threads e" using fresh(2) by simp
  from load_entries_ser[OF safe' nt len0, of "[]"] obtain s1 where
    s1: "load_entries e (map ser_entry reg') (?s0, []) = Inr (s1, ?qids)"
      "req_res_map s1 = foldl (\<lambda>r kv. reg_emplace (fst kv) (restored e (snd kv)) r) (req_res_map ?s0) reg'"
      "length (queues s1) = num_threads e"
      "\<forall>j < num_threads e. queues s1 ! j = queues ?s0 ! j @ pushed e j reg'"
      "queued_writes s1 = queued_writes ?s0" by auto
  let ?s' = "s1\<lparr>queues := sort_queues ?qids (queues s1)\<rparr>"
  have ls: "load_state e (serialize_state s) s0 = Inr ?s'"
    by (simp add: load_state_def items s1(1))
  have qw: "queued_writes ?s' = queued_writes s"
    using s1(5) by (simp add: serialize_state_def)
  have reg: "req_res_map ?s' = map (\<lambda>kv. (fst kv, restored e (snd kv))) reg'"
    using foldl_reg_emplace[OF dk, of "[]" "restored e"] s1(2) fresh(1) by simp
  have keys: "fst ` set (req_res_map ?s') = fst ` set (req_res_map s)"
    unfolding reg seteq[symmetric] by force
  have dmap: "distinct (map fst (map (\<lambda>kv. (fst kv, restored e (snd kv))) reg'))"
    using dk by (simp add: o_def)
  have look: "map_of (req_res_map ?s') (fst kv) = Some (restored e (snd kv))"
    if "kv \<in> set (req_res_map s)" for kv
  proof -
    have "(fst kv, restored e (snd kv)) \<in> set (map (\<lambda>kv. (fst kv, restored e (snd kv))) reg')"
      using that seteq by force
    with dmap show ?thesis unfolding reg by (rule map_of_is_SomeI)
  qed
  have qlt: "\<forall>i \<in> set ?qids. i < length (queues s1)"
    using nt s1(3) by (auto simp: shard_of_def)
  have qj: "sorted (queues ?s' ! j) \<and> distinct (queues ?s' ! j)
           \<and> set (queues ?s' ! j) =
               {k. \<exists>rr. (k, rr) \<in> set (req_res_map s) \<and> is_complete rr \<and> shard_of e (req rr) = j}"
    if j: "j < num_threads e" for j
  proof -
    let ?P = "map fst (filter (\<lambda>kv. is_complete (snd kv) \<and> shard_of e (req (snd kv)) = j) reg')"
    have p: "queues s1 ! j = ?P"
      using s1(4) j fresh(2) pushed_keys[OF key', of e j] by simp
    have dP: "distinct ?P" using dk by (rule distinct_map_filter)
    have sP: "set ?P = {k. \<exists>rr. (k, rr) \<in> set (req_res_map s) \<and> is_complete rr \<and> shard_of e (req rr) = j}"
      unfolding seteq[symmetric] by force
    have jl: "j < length (queues s1)" using j s1(3) by simp
    have nth: "queues ?s' ! j = (if j \<in> set ?qids then sort ?P else ?P)"
      using sort_queues_nth[OF qlt jl] p by simp
    have empty: "?P = []" if "j \<notin> set ?qids"
    proof (rule ccontr)
      assume "?P \<noteq> []"
      then obtain kv where "kv \<in> set reg'" "is_complete (snd kv)" "shard_of e (req (snd kv)) = j"
        by (auto simp: filter_empty_conv)
      then have "j \<in> set ?qids" by force
      with that show False by simp
    qed
    show ?thesis
    proof (cases "j \<in> set ?qids")
      case True
      with nth have q: "queues ?s' ! j = sort ?P" by simp
      have "sorted (sort ?P)" "distinct (sort ?P)" "set (sort ?P) = set ?P" using dP by simp_all
      with sP show ?thesis unfolding q by simp
    next
      case False
      with nth have q: "queues ?s' ! j = ?P" by simp
      have "sorted ?P" using empty[OF False] by simp
      with dP sP show ?thesis unfolding q by blast
    qed
  qed
  have lq: "length (queues ?s') = num_threads e" using s1(3) by simp
  from ls qw keys look lq qj show ?thesis by blast
qed

text \<open>
  C4, as the code has it. Take a registry with one record per key, each filed under the id
  of its request, and such that a route exists for every complete record whose
  \<^verbatim>\<open>collection\<close> parameter is empty (without one \<^verbatim>\<open>get_collection_name\<close> reads an unset
  pointer). Then \<^verbatim>\<open>load_state\<close>, run on a fresh indexer with the document of
  \<^verbatim>\<open>serialize_state\<close>, returns; it restores \<open>queued_writes\<close>; the registry has the same ids,
  and the record of each id has the same \<open>batch_begin_ts\<close>, \<open>num_chunks\<close>, \<open>next_chunk_index\<close>,
  \<open>is_complete\<close> and \<open>prev_req_body\<close>; its serialized request is the old one, except that for
  a complete record the \<^verbatim>\<open>collection\<close> parameter now holds the collection name resolved for
  the shard, so it is the same whenever the parameter already held that name; each queue
  is sorted, without repetition, and holds exactly the ids of the complete records whose
  collection name hashes to it, so incomplete records are in no queue.
\<close>

theorem snapshot_round_trip:
  assumes wf: "registry_wf (req_res_map s)"
    and fresh: "req_res_map s0 = []" "queues s0 = replicate (num_threads e) []"
    and nt: "0 < num_threads e"
    and safe: "\<forall>kv \<in> set (req_res_map s). name_lookup_safe e (snd kv)"
  shows "\<exists>s'. load_state e (serialize_state s) s0 = Inr s'
     \<and> queued_writes s' = queued_writes s
     \<and> fst ` set (req_res_map s') = fst ` set (req_res_map s)
     \<and> (\<forall>kv \<in> set (req_res_map s). \<exists>rr'.
           map_of (req_res_map s') (fst kv) = Some rr'
         \<and> batch_begin_ts rr' = batch_begin_ts (snd kv) \<and> num_chunks rr' = num_chunks (snd kv)
         \<and> next_chunk_index rr' = next_chunk_index (snd kv)
         \<and> is_complete rr' = is_complete (snd kv) \<and> prev_req_body rr' = prev_req_body (snd kv)
         \<and> to_json (req rr') =
             (to_json (req (snd kv)))
               \<lparr>j_params := (if is_complete (snd kv)
                              then (params (req (snd kv)))
                                     (''collection'' \<mapsto> coll_name_of e (req (snd kv)))
                              else params (req (snd kv)))\<rparr>
         \<and> ((is_complete (snd kv) \<longrightarrow>
                params (req (snd kv)) ''collection'' = Some (coll_name_of e (req (snd kv))))
              \<longrightarrow> to_json (req rr') = to_json (req (snd kv))))
     \<and> length (queues s') = num_threads e
     \<and> (\<forall>j < num_threads e. sorted (queues s' ! j) \<and> distinct (queues s' ! j)
           \<and> set (queues s' ! j) =
               {k. \<exists>rr. (k, rr) \<in> set (req_res_map s) \<and> is_complete rr \<and> shard_of e (req rr) = j})"
proof -
  from load_state_ser[OF wf fresh nt safe] obtain s' where
    s': "load_state e (serialize_state s) s0 = Inr s'"
      "queued_writes s' = queued_writes s"
      "fst ` set (req_res_map s') = fst ` set (req_res_map s)"
      "\<forall>kv \<in> set (req_res_map s). map_of (req_res_map s') (fst kv) = Some (restored e (snd kv))"
      "length (queues s') = num_threads e"
      "\<forall>j < num_threads e. sorted (queues s' ! j) \<and> distinct (queues s' ! j)
           \<and> set (queues s' ! j) =
               {k. \<exists>rr. (k, rr) \<in> set (req_res_map s) \<and> is_complete rr \<and> shard_of e (req rr) = j}"
    by blast
  have fields: "batch_begin_ts (restored e rr) = batch_begin_ts rr \<and> num_chunks (restored e rr) = num_chunks rr
         \<and> next_chunk_index (restored e rr) = next_chunk_index rr
         \<and> is_complete (restored e rr) = is_complete rr \<and> prev_req_body (restored e rr) = prev_req_body rr
         \<and> to_json (req (restored e rr)) =
             (to_json (req rr))
               \<lparr>j_params := (if is_complete rr
                              then (params (req rr))(''collection'' \<mapsto> coll_name_of e (req rr))
                              else params (req rr))\<rparr>
         \<and> ((is_complete rr \<longrightarrow> params (req rr) ''collection'' = Some (coll_name_of e (req rr)))
              \<longrightarrow> to_json (req (restored e rr)) = to_json (req rr))" for rr
    by (auto simp: restored_def to_json_def fun_upd_idem)
  have "\<forall>kv \<in> set (req_res_map s). \<exists>rr'.
           map_of (req_res_map s') (fst kv) = Some rr'
         \<and> batch_begin_ts rr' = batch_begin_ts (snd kv) \<and> num_chunks rr' = num_chunks (snd kv)
         \<and> next_chunk_index rr' = next_chunk_index (snd kv)
         \<and> is_complete rr' = is_complete (snd kv) \<and> prev_req_body rr' = prev_req_body (snd kv)
         \<and> to_json (req rr') =
             (to_json (req (snd kv)))
               \<lparr>j_params := (if is_complete (snd kv)
                              then (params (req (snd kv)))
                                     (''collection'' \<mapsto> coll_name_of e (req (snd kv)))
                              else params (req (snd kv)))\<rparr>
         \<and> ((is_complete (snd kv) \<longrightarrow>
                params (req (snd kv)) ''collection'' = Some (coll_name_of e (req (snd kv))))
              \<longrightarrow> to_json (req rr') = to_json (req (snd kv)))"
  proof
    fix kv assume "kv \<in> set (req_res_map s)"
    with s'(4) have "map_of (req_res_map s') (fst kv) = Some (restored e (snd kv))" by blast
    with fields[of "snd kv"] show "\<exists>rr'.
           map_of (req_res_map s') (fst kv) = Some rr'
         \<and> batch_begin_ts rr' = batch_begin_ts (snd kv) \<and> num_chunks rr' = num_chunks (snd kv)
         \<and> next_chunk_index rr' = next_chunk_index (snd kv)
         \<and> is_complete rr' = is_complete (snd kv) \<and> prev_req_body rr' = prev_req_body (snd kv)
         \<and> to_json (req rr') =
             (to_json (req (snd kv)))
               \<lparr>j_params := (if is_complete (snd kv)
                              then (params (req (snd kv)))
                                     (''collection'' \<mapsto> coll_name_of e (req (snd kv)))
                              else params (req (snd kv)))\<rparr>
         \<and> ((is_complete (snd kv) \<longrightarrow>
                params (req (snd kv)) ''collection'' = Some (coll_name_of e (req (snd kv))))
              \<longrightarrow> to_json (req rr') = to_json (req (snd kv)))"
      by blast
  qed
  with s'(1,2,3,5,6) show ?thesis by blast
qed

lemma idx_empty_restore:
  "req_res_map idx_empty = []" "queues idx_empty = replicate (num_threads env0) []"
  "0 < num_threads env0"
  by (simp_all add: idx_empty_def env0_def numeral_2_eq_2)

theorem snapshot_round_trip_witness:
  "\<exists>s' rr'. load_state env0 (serialize_state idx_gc) idx_empty = Inr s'
     \<and> queued_writes s' = queued_writes idx_gc
     \<and> map_of (req_res_map s') 100 = Some rr'
     \<and> batch_begin_ts rr' = 1000 \<and> is_complete rr'
     \<and> to_json (req rr') = to_json (req rec_unrouted)
     \<and> set (queues s' ! 1) = {100} \<and> set (queues s' ! 0) = {}"
proof -
  have wf: "registry_wf (req_res_map idx_gc)"
    by (simp add: registry_wf_def idx_gc_def rec_unrouted_def rec_young_def req_books_def idx_empty_def)
  have safe: "\<forall>kv \<in> set (req_res_map idx_gc). name_lookup_safe env0 (snd kv)"
    by (simp add: name_lookup_safe_def idx_gc_def rec_unrouted_def rec_young_def req_books_def
        idx_empty_def)
  have cn: "coll_name_of env0 (req rec_unrouted) = ''books''"
    by (simp add: coll_name_of_def get_collection_name_def Let_def rec_unrouted_def req_books_def)
  have sh: "shard_of env0 (req rec_unrouted) = 1"
    unfolding shard_of_def cn by (simp add: env0_def)
  have inc: "\<not> is_complete rec_young" "is_complete rec_unrouted"
    by (simp_all add: rec_young_def rec_unrouted_def)
  have reg: "req_res_map idx_gc = [(100, rec_unrouted), (200, rec_young)]"
    by (simp add: idx_gc_def idx_empty_def)
  from snapshot_round_trip [OF wf idx_empty_restore safe] obtain s' where
    s': "load_state env0 (serialize_state idx_gc) idx_empty = Inr s'"
      "queued_writes s' = queued_writes idx_gc"
      "\<forall>kv \<in> set (req_res_map idx_gc). \<exists>rr'.
           map_of (req_res_map s') (fst kv) = Some rr'
         \<and> batch_begin_ts rr' = batch_begin_ts (snd kv) \<and> num_chunks rr' = num_chunks (snd kv)
         \<and> next_chunk_index rr' = next_chunk_index (snd kv)
         \<and> is_complete rr' = is_complete (snd kv) \<and> prev_req_body rr' = prev_req_body (snd kv)
         \<and> to_json (req rr') =
             (to_json (req (snd kv)))
               \<lparr>j_params := (if is_complete (snd kv)
                              then (params (req (snd kv)))
                                     (''collection'' \<mapsto> coll_name_of env0 (req (snd kv)))
                              else params (req (snd kv)))\<rparr>
         \<and> ((is_complete (snd kv) \<longrightarrow>
                params (req (snd kv)) ''collection'' = Some (coll_name_of env0 (req (snd kv))))
              \<longrightarrow> to_json (req rr') = to_json (req (snd kv)))"
      "\<forall>j < num_threads env0. sorted (queues s' ! j) \<and> distinct (queues s' ! j)
           \<and> set (queues s' ! j) =
               {k. \<exists>rr. (k, rr) \<in> set (req_res_map idx_gc) \<and> is_complete rr \<and> shard_of env0 (req rr) = j}"
    by blast
  from s'(3) obtain rr' where rr': "map_of (req_res_map s') 100 = Some rr'"
    "batch_begin_ts rr' = batch_begin_ts rec_unrouted" "is_complete rr' = is_complete rec_unrouted"
    "(is_complete rec_unrouted \<longrightarrow>
        params (req rec_unrouted) ''collection'' = Some (coll_name_of env0 (req rec_unrouted)))
      \<longrightarrow> to_json (req rr') = to_json (req rec_unrouted)"
    unfolding reg by force
  have tj: "to_json (req rr') = to_json (req rec_unrouted)"
    using rr'(4) by (simp add: cn) (simp add: rec_unrouted_def req_books_def)
  have q1: "set (queues s' ! 1) = {100}"
    using s'(4) sh inc unfolding reg by (auto simp: env0_def)
  have q0: "set (queues s' ! 0) = {}"
    using s'(4) sh inc unfolding reg by (auto simp: env0_def)
  from s'(1,2) rr'(1,2,3) tj q1 q0 inc show ?thesis
    by (intro exI[of _ s'] exI[of _ rr']) (simp add: rec_unrouted_def)
qed

text \<open>
  C4, as the spec has it, fails on two registries of one complete record. In the first the
  \<^verbatim>\<open>collection\<close> parameter is empty and the route table has no route for the request:
  \<^verbatim>\<open>load_state\<close> runs into the unset pointer. In the second the request has no \<^verbatim>\<open>collection\<close>
  parameter: the restored request has one, so its serialized form differs.
\<close>

theorem snapshot_round_trip_counterexample:
  "load_state env0 (serialize_state idx_lost_route) idx_empty = Inl UnsetRoutePtr
   \<and> \<not> isl (load_state env0 (serialize_state idx_plain) idx_empty)
   \<and> map_of (req_res_map (projr (load_state env0 (serialize_state idx_plain) idx_empty))) 100
       = Some (restored env0 rec_plain)
   \<and> j_params (to_json (req rec_plain)) ''collection'' = None
   \<and> j_params (to_json (req (restored env0 rec_plain))) ''collection'' = Some []
   \<and> to_json (req (restored env0 rec_plain)) \<noteq> to_json (req rec_plain)"
proof -
  have a: "load_state env0 (serialize_state idx_lost_route) idx_empty = Inl UnsetRoutePtr"
    by (simp add: load_state_def serialize_state_def idx_lost_route_def idx_empty_def json_set_def
        stoull_to_string restore_record_to_json rec_lost_route_def rec_plain_def req_plain_def
        get_collection_name_def Let_def env0_def)
  have wf: "registry_wf (req_res_map idx_plain)"
    by (simp add: registry_wf_def idx_plain_def rec_plain_def req_plain_def idx_empty_def)
  have safe: "\<forall>kv \<in> set (req_res_map idx_plain). name_lookup_safe env0 (snd kv)"
    by (simp add: name_lookup_safe_def idx_plain_def rec_plain_def req_plain_def idx_empty_def env0_def)
  from load_state_ser[OF wf idx_empty_restore safe] obtain s' where
    s': "load_state env0 (serialize_state idx_plain) idx_empty = Inr s'"
    "\<forall>kv \<in> set (req_res_map idx_plain). map_of (req_res_map s') (fst kv) = Some (restored env0 (snd kv))"
    by blast
  have b: "map_of (req_res_map s') 100 = Some (restored env0 rec_plain)"
    using s'(2) by (simp add: idx_plain_def idx_empty_def)
  have c: "j_params (to_json (req rec_plain)) ''collection'' = None"
    by (simp add: to_json_def rec_plain_def req_plain_def)
  have "coll_name_of env0 (req rec_plain) = []"
    by (simp add: coll_name_of_def get_collection_name_def Let_def rec_plain_def req_plain_def env0_def)
  then have d: "j_params (to_json (req (restored env0 rec_plain))) ''collection'' = Some []"
    by (simp add: restored_def to_json_def rec_plain_def)
  from c d have e: "to_json (req (restored env0 rec_plain)) \<noteq> to_json (req rec_plain)"
    by (metis option.distinct(1))
  from a s'(1) b c d e show ?thesis by simp
qed

end
